theory Spec2Isabelle
  imports Complex_Main
begin

section \<open>Layout engine of the slide generator\<close>

text \<open>
  A shallow embedding of the layout code of \<^verbatim>\<open>esv_slides/pdf_generator.py\<close>
  (class \<^verbatim>\<open>PDFGenerator\<close>): the text classifier, the element parser, the line
  wrapper, the paginator and the inline verse segmenter.

  Python strings are modelled as \<^typ>\<open>string\<close>; a \<^typ>\<open>char\<close> stands for a code
  point below 256. Widths, heights and font sizes (Python floats) are modelled as
  \<^typ>\<open>real\<close>; rounding of floating-point arithmetic is not modelled. The canvas method
  \<^verbatim>\<open>stringWidth(text, font, size)\<close> is a parameter \<open>string_width\<close> of the model, already
  applied to the font and its size.
\<close>

subsection \<open>String primitives of Python\<close>

text \<open>
  \<^verbatim>\<open>str.isspace\<close> on code points below 256: TAB, LF, VT, FF, CR, FS, GS, RS, US, SPACE,
  NEL and NBSP. This is the set that \<^verbatim>\<open>str.split()\<close> and \<^verbatim>\<open>str.strip()\<close> without
  an argument use.
\<close>

definition is_space :: "char \<Rightarrow> bool" where
  "is_space c \<longleftrightarrow>
     c \<in> {CHR 0x09, CHR 0x0A, CHR 0x0B, CHR 0x0C, CHR 0x0D, CHR 0x1C, CHR 0x1D, CHR 0x1E,
          CHR 0x1F, CHR 0x20, CHR 0x85, CHR 0xA0}"

text \<open>The regular expression class \<^verbatim>\<open>\d\<close> on code points below 256.\<close>

definition is_digit :: "char \<Rightarrow> bool" where
  "is_digit c \<longleftrightarrow> c \<in> set ''0123456789''"

text \<open>\<^verbatim>\<open>s.strip()\<close>: leading and trailing whitespace removed.\<close>

definition strip :: "string \<Rightarrow> string" where
  "strip s = rev (dropWhile is_space (rev (dropWhile is_space s)))"

text \<open>\<^verbatim>\<open>s.lstrip(' ')\<close>: leading space characters (only U+0020) removed.\<close>

definition lstrip_spaces :: "string \<Rightarrow> string" where
  "lstrip_spaces s = dropWhile (\<lambda>c. c = CHR '' '') s"

text \<open>
  \<^verbatim>\<open>s.split()\<close>: the maximal runs of non-whitespace characters, in order. The first
  argument is the word being read.
\<close>

fun split_from :: "string \<Rightarrow> string \<Rightarrow> string list" where
  "split_from word [] = (if word = [] then [] else [word])"
| "split_from word (c # cs) =
     (if is_space c then (if word = [] then split_from [] cs else word # split_from [] cs)
      else split_from (word @ [c]) cs)"

definition split :: "string \<Rightarrow> string list" where
  "split s = split_from [] s"

text \<open>
  \<^verbatim>\<open>s.split("\n")\<close>: the pieces between line feeds, empty pieces kept; the empty string
  gives one empty piece. The first argument is the piece being read.
\<close>

fun split_lines_from :: "string \<Rightarrow> string \<Rightarrow> string list" where
  "split_lines_from piece [] = [piece]"
| "split_lines_from piece (c # cs) =
     (if c = CHR 0x0A then piece # split_lines_from [] cs
      else split_lines_from (piece @ [c]) cs)"

definition split_lines :: "string \<Rightarrow> string list" where
  "split_lines s = split_lines_from [] s"

text \<open>\<^verbatim>\<open>' '.join(xs)\<close>.\<close>

fun join :: "string list \<Rightarrow> string" where
  "join [] = []"
| "join [x] = x"
| "join (x # y # ys) = x @ CHR '' '' # join (y # ys)"

subsection \<open>The verse-number marker\<close>

text \<open>
  The pattern \<^verbatim>\<open>\[(\d+)\]\<close> matched at the start of a string: the digits of group 1 and
  the text after the match. The digits are never \<^verbatim>\<open>]\<close>, so the greedy \<^verbatim>\<open>\d+\<close> has
  one way to match: the maximal run of digits, which must be non-empty and followed by
  \<^verbatim>\<open>]\<close>.
\<close>

definition match_marker :: "string \<Rightarrow> (string \<times> string) option" where
  "match_marker s =
     (case s of
        [] \<Rightarrow> None
      | c # t \<Rightarrow>
          if c = CHR ''['' \<and> takeWhile is_digit t \<noteq> [] \<and>
             dropWhile is_digit t \<noteq> [] \<and> hd (dropWhile is_digit t) = CHR '']''
          then Some (takeWhile is_digit t, tl (dropWhile is_digit t))
          else None)"

text \<open>\<^verbatim>\<open>re.search(r'\[\d+\]', s)\<close> finds a match: the pattern matches at some position.\<close>

fun search_marker :: "string \<Rightarrow> bool" where
  "search_marker [] = False"
| "search_marker (c # cs) = (match_marker (c # cs) \<noteq> None \<or> search_marker cs)"

subsection \<open>Text classifier\<close>

text \<open>\<^verbatim>\<open>_is_section_heading\<close>, read as a truth value.\<close>

definition is_section_heading :: "string \<Rightarrow> bool" where
  "is_section_heading line =
     (let stripped = strip line;
          has_leading_spaces = (line \<noteq> [] \<and> hd line = CHR '' '')
      in stripped \<noteq> [] \<and> \<not> search_marker stripped \<and> \<not> has_leading_spaces)"

text \<open>\<^verbatim>\<open>_is_poetry\<close>: some line starts with a space and has content.\<close>

definition is_poetry :: "string \<Rightarrow> bool" where
  "is_poetry text =
     list_ex (\<lambda>line. line \<noteq> [] \<and> hd line = CHR '' '' \<and> strip line \<noteq> []) (split_lines text)"

subsection \<open>Element parser\<close>

text \<open>The tuples \<^verbatim>\<open>('heading', s)\<close>, \<^verbatim>\<open>('body', s)\<close> and \<^verbatim>\<open>('poetry', s)\<close>.\<close>

datatype element = HeadingElem string | BodyElem string | PoetryLine string

fun content :: "element \<Rightarrow> string" where
  "content (HeadingElem s) = s"
| "content (BodyElem s) = s"
| "content (PoetryLine s) = s"

text \<open>
  The two places of \<^verbatim>\<open>_parse_passage_elements\<close> that empty \<^verbatim>\<open>current_body\<close> into
  \<^verbatim>\<open>elements\<close> run the same code; \<open>flush_body\<close> is what they append.
\<close>

definition flush_body :: "bool \<Rightarrow> string list \<Rightarrow> element list" where
  "flush_body is_poetry_passage current_body =
     (if current_body = [] then []
      else if is_poetry_passage then map PoetryLine current_body
      else [BodyElem (join current_body)])"

text \<open>The loop over the lines, with its state \<^verbatim>\<open>elements\<close> and \<^verbatim>\<open>current_body\<close>.\<close>

fun parse_lines ::
  "bool \<Rightarrow> element list \<Rightarrow> string list \<Rightarrow> string list \<Rightarrow> element list \<times> string list" where
  "parse_lines is_poetry_passage elements current_body [] = (elements, current_body)"
| "parse_lines is_poetry_passage elements current_body (line # lines) =
     (if strip line = [] then parse_lines is_poetry_passage elements current_body lines
      else if is_section_heading line then
        parse_lines is_poetry_passage
          (elements @ flush_body is_poetry_passage current_body @ [HeadingElem (strip line)])
          [] lines
      else
        parse_lines is_poetry_passage elements
          (current_body @ [if is_poetry_passage then line else strip line]) lines)"

definition parse_passage_elements :: "string \<Rightarrow> element list" where
  "parse_passage_elements text =
     (case parse_lines (is_poetry text) [] [] (split_lines text) of
        (elements, current_body) \<Rightarrow> elements @ flush_body (is_poetry text) current_body)"

subsection \<open>Line wrapper\<close>

text \<open>
  The loop of \<^verbatim>\<open>_wrap_text\<close> over the words, with its state \<^verbatim>\<open>lines\<close> and
  \<^verbatim>\<open>current_line\<close>.
\<close>

fun wrap_words ::
  "(string \<Rightarrow> real) \<Rightarrow> real \<Rightarrow> string list \<Rightarrow> string list \<Rightarrow> string list
     \<Rightarrow> string list \<times> string list" where
  "wrap_words string_width max_width lines current_line [] = (lines, current_line)"
| "wrap_words string_width max_width lines current_line (word # words) =
     (if string_width (join (current_line @ [word])) \<le> max_width
      then wrap_words string_width max_width lines (current_line @ [word]) words
      else wrap_words string_width max_width
             (if current_line \<noteq> [] then lines @ [join current_line] else lines) [word] words)"

definition wrap_text :: "(string \<Rightarrow> real) \<Rightarrow> real \<Rightarrow> string \<Rightarrow> string list" where
  "wrap_text string_width max_width text =
     (case wrap_words string_width max_width [] [] (split text) of
        (lines, current_line) \<Rightarrow>
          if current_line \<noteq> [] then lines @ [join current_line] else lines)"

subsection \<open>Wrapped lines\<close>

text \<open>
  The tuples of \<^verbatim>\<open>formatted_lines\<close>: \<^verbatim>\<open>('heading', s)\<close>, \<^verbatim>\<open>('body', s)\<close> and
  \<^verbatim>\<open>('poetry', (leading_spaces, s))\<close>.
\<close>

datatype wrapped_line = Heading string | Body string | Poetry nat string

definition SLIDE_WIDTH :: real where "SLIDE_WIDTH = 1920"
definition SLIDE_HEIGHT :: real where "SLIDE_HEIGHT = 1080"
definition MARGIN_LEFT :: real where "MARGIN_LEFT = 150"
definition MARGIN_RIGHT :: real where "MARGIN_RIGHT = 150"
definition MARGIN_TOP :: real where "MARGIN_TOP = 150"
definition MARGIN_BOTTOM :: real where "MARGIN_BOTTOM = 120"

definition available_width :: real where
  "available_width = SLIDE_WIDTH - MARGIN_LEFT - MARGIN_RIGHT"

definition available_height :: real where
  "available_height = SLIDE_HEIGHT - MARGIN_TOP - MARGIN_BOTTOM"

text \<open>
  The body of the first loop of \<^verbatim>\<open>_create_body_slides\<close>: the wrapped lines of one
  element. Both branches of the test \<^verbatim>\<open>i == 0\<close> are kept as the source has them.
\<close>

fun format_element :: "(string \<Rightarrow> real) \<Rightarrow> real \<Rightarrow> element \<Rightarrow> wrapped_line list" where
  "format_element string_width body_font_size (HeadingElem text) = [Heading text]"
| "format_element string_width body_font_size (PoetryLine text) =
     (let stripped_text = lstrip_spaces text;
          leading_spaces = length text - length stripped_text;
          indent_offset = real leading_spaces * (body_font_size * 0.3);
          poetry_available_width = available_width - indent_offset;
          wrapped = wrap_text string_width poetry_available_width stripped_text
      in map (\<lambda>(i, line). if i = 0 then Poetry leading_spaces line
                           else Poetry leading_spaces line)
             (enumerate 0 wrapped))"
| "format_element string_width body_font_size (BodyElem text) =
     map Body (wrap_text string_width available_width text)"

definition format_lines :: "(string \<Rightarrow> real) \<Rightarrow> real \<Rightarrow> element list \<Rightarrow> wrapped_line list" where
  "format_lines string_width body_font_size elements =
     concat (map (format_element string_width body_font_size) elements)"

subsection \<open>Paginator\<close>

text \<open>
  \<^verbatim>\<open>formatted_lines[line_index + 1][0] == 'body'\<close>, guarded by the bound check, on the
  lines after the heading.
\<close>

fun has_body_after :: "wrapped_line list \<Rightarrow> bool" where
  "has_body_after (Body _ # _) = True"
| "has_body_after _ = False"

text \<open>
  The local variables \<^verbatim>\<open>lines_needed\<close> and \<^verbatim>\<open>total_needed\<close> of the heading branch,
  as functions of the slide so far and of the lines after the heading.
\<close>

definition lines_needed :: "wrapped_line list \<Rightarrow> int" where
  "lines_needed current_slide = (if length current_slide > 0 then 2 else 1)"

definition total_needed :: "wrapped_line list \<Rightarrow> wrapped_line list \<Rightarrow> int" where
  "total_needed current_slide rest =
     (if has_body_after rest then lines_needed current_slide + 1
      else lines_needed current_slide)"

text \<open>
  The inner loop of the pagination: it fills \<^verbatim>\<open>current_slide\<close>. The last argument is
  \<^verbatim>\<open>formatted_lines[line_index:]\<close>, so that \<^verbatim>\<open>line_index += 1\<close> is the step to the
  tail; the result is the slide, its \<^verbatim>\<open>lines_on_slide\<close> and the lines not yet placed
  (all of them after a \<^verbatim>\<open>break\<close>, none when the loop condition fails).
\<close>

fun fill_slide ::
  "int \<Rightarrow> wrapped_line list \<Rightarrow> int \<Rightarrow> wrapped_line list
     \<Rightarrow> wrapped_line list \<times> int \<times> wrapped_line list" where
  "fill_slide max_lines current_slide lines_on_slide [] = (current_slide, lines_on_slide, [])"
| "fill_slide max_lines current_slide lines_on_slide (Heading text # rest) =
     (if lines_on_slide + total_needed current_slide rest > max_lines \<and> length current_slide > 0
      then (current_slide, lines_on_slide, Heading text # rest)
      else fill_slide max_lines (current_slide @ [Heading text])
             (lines_on_slide + lines_needed current_slide) rest)"
| "fill_slide max_lines current_slide lines_on_slide (line_item # rest) =
     (if lines_on_slide + 1 > max_lines
      then (current_slide, lines_on_slide, line_item # rest)
      else fill_slide max_lines (current_slide @ [line_item]) (lines_on_slide + 1) rest)"

text \<open>
  The outer loop. Each pass starts an empty slide, fills it and, when it is not empty,
  hands it to \<^verbatim>\<open>_create_single_body_slide_with_headings\<close>, which draws one page; the
  pages drawn so far are the last argument. The source loops while lines are left, whether
  or not the pass placed one, so the loop is a partial function: \<open>None\<close> is a run that
  never ends.
\<close>

partial_function (option) paginate_loop ::
  "int \<Rightarrow> wrapped_line list \<Rightarrow> wrapped_line list list \<Rightarrow> wrapped_line list list option" where
  "paginate_loop max_lines rest slides =
     (if rest = [] then Some slides
      else case fill_slide max_lines [] 0 rest of
        (current_slide, lines_on_slide, rest') \<Rightarrow>
           paginate_loop max_lines rest'
             (if current_slide \<noteq> [] then slides @ [current_slide] else slides))"

text \<open>\<^verbatim>\<open>int(x)\<close> on a float: rounding towards zero.\<close>

definition py_int :: "real \<Rightarrow> int" where
  "py_int x = (if 0 \<le> x then \<lfloor>x\<rfloor> else \<lceil>x\<rceil>)"

datatype error = ZeroDivisionError

text \<open>
  The pagination of \<^verbatim>\<open>_create_body_slides\<close>. The source computes
  \<^verbatim>\<open>max_lines = int(available_height / line_height)\<close> at every line, always from the
  same two values; the division raises when \<^verbatim>\<open>line_height\<close> is zero, which happens at
  the first line, before any page is drawn.
\<close>

definition paginate ::
  "real \<Rightarrow> real \<Rightarrow> wrapped_line list \<Rightarrow> (error + wrapped_line list list) option" where
  "paginate avail_height line_height formatted_lines =
     (if formatted_lines = [] then Some (Inr [])
      else if line_height = 0 then Some (Inl ZeroDivisionError)
      else map_option Inr
             (paginate_loop (py_int (avail_height / line_height)) formatted_lines []))"

text \<open>\<^verbatim>\<open>_create_body_slides\<close>: the pages drawn for the text of a passage.\<close>

definition create_body_slides ::
  "(string \<Rightarrow> real) \<Rightarrow> real \<Rightarrow> string \<Rightarrow> (error + wrapped_line list list) option" where
  "create_body_slides string_width body_font_size text =
     paginate available_height (body_font_size * 1.5)
       (format_lines string_width body_font_size (parse_passage_elements text))"

text \<open>
  The budget units of a slide as the paginator counts them: a heading that is the first
  item of its slide is one unit, any other heading two, a body or poetry line one.
\<close>

fun units_from :: "bool \<Rightarrow> wrapped_line list \<Rightarrow> int" where
  "units_from first [] = 0"
| "units_from first (Heading _ # rest) = (if first then 1 else 2) + units_from False rest"
| "units_from first (_ # rest) = 1 + units_from False rest"

definition slide_units :: "wrapped_line list \<Rightarrow> int" where
  "slide_units slide = units_from True slide"

subsection \<open>Inline verse segmenter\<close>

text \<open>The tuples \<^verbatim>\<open>('text', s)\<close> and \<^verbatim>\<open>('verse', digits)\<close>.\<close>

datatype segment = TextSeg string | VerseNumber string

text \<open>A match object: \<^verbatim>\<open>start()\<close>, \<^verbatim>\<open>end()\<close> and \<^verbatim>\<open>group(1)\<close>.\<close>

record re_match =
  m_start :: nat
  m_end :: nat
  m_group1 :: string

text \<open>
  \<^verbatim>\<open>re.finditer(pattern, line)\<close>: the matches from left to right, each search starting
  where the match before ended. The first argument is the position in the line, the
  second the line from that position on.
\<close>

function finditer_from :: "nat \<Rightarrow> string \<Rightarrow> re_match list" where
  "finditer_from pos [] = []"
| "finditer_from pos (c # cs) =
     (case match_marker (c # cs) of
        Some (digits, after) \<Rightarrow>
          \<lparr>m_start = pos, m_end = pos + length digits + 2, m_group1 = digits\<rparr>
            # finditer_from (pos + length digits + 2) after
      | None \<Rightarrow> finditer_from (pos + 1) cs)"
  by pat_completeness auto
termination
proof (relation "measure (\<lambda>(pos, rest). length rest)")
  show "wf (measure (\<lambda>(pos, rest). length rest))"
    by simp
next
  fix pos :: nat and c cs x2 digits after
  assume "match_marker (c # cs) = Some x2" and "(digits, after) = x2"
  then have "after = tl (dropWhile is_digit cs)"
    by (auto simp: match_marker_def split: if_splits)
  moreover have "length (dropWhile is_digit cs) \<le> length cs"
    by (rule length_dropWhile_le)
  ultimately show "((pos + length digits + 2, after), (pos, c # cs))
      \<in> measure (\<lambda>(pos, rest). length rest)"
    by simp
next
  fix pos :: nat and c cs
  show "((pos + 1, cs), (pos, c # cs)) \<in> measure (\<lambda>(pos, rest). length rest)"
    by simp
qed

definition finditer :: "string \<Rightarrow> re_match list" where
  "finditer line = finditer_from 0 line"

text \<open>The slice \<^verbatim>\<open>line[i:j]\<close> for \<open>i \<le> j\<close>.\<close>

definition slice :: "string \<Rightarrow> nat \<Rightarrow> nat \<Rightarrow> string" where
  "slice line i j = take (j - i) (drop i line)"

text \<open>
  The loop of \<^verbatim>\<open>_render_line_with_colored_verse_numbers\<close> over the matches, with its
  state \<^verbatim>\<open>segments\<close> and \<^verbatim>\<open>last_end\<close>.
\<close>

fun segment_loop ::
  "string \<Rightarrow> segment list \<Rightarrow> nat \<Rightarrow> re_match list \<Rightarrow> segment list \<times> nat" where
  "segment_loop line segments last_end [] = (segments, last_end)"
| "segment_loop line segments last_end (m # ms) =
     segment_loop line
       ((if m_start m > last_end
         then segments @ [TextSeg (slice line last_end (m_start m))] else segments)
        @ [VerseNumber (m_group1 m)])
       (m_end m) ms"

text \<open>The segments that \<^verbatim>\<open>_render_line_with_colored_verse_numbers\<close> draws.\<close>

definition line_segments :: "string \<Rightarrow> segment list" where
  "line_segments line =
     (case segment_loop line [] 0 (finditer line) of
        (segments, last_end) \<Rightarrow>
          if last_end < length line then segments @ [TextSeg (drop last_end line)]
          else segments)"

text \<open>What a segment stands for in the line it was cut from.\<close>

fun segment_source :: "segment \<Rightarrow> string" where
  "segment_source (TextSeg s) = s"
| "segment_source (VerseNumber digits) = CHR ''['' # digits @ [CHR '']'']"

fun is_text :: "segment \<Rightarrow> bool" where
  "is_text (TextSeg _) = True"
| "is_text (VerseNumber _) = False"

text \<open>No two text segments follow each other.\<close>

fun texts_separated :: "segment list \<Rightarrow> bool" where
  "texts_separated (a # b # segs) = (\<not> (is_text a \<and> is_text b) \<and> texts_separated (b # segs))"
| "texts_separated _ = True"

subsection \<open>Auxiliary functions of the proofs\<close>

text \<open>The text segment of a piece of the line; an empty piece gives none.\<close>

definition text_segment :: "string \<Rightarrow> segment list" where
  "text_segment s = (if s \<noteq> [] then [TextSeg s] else [])"

text \<open>
  The segments read off in one pass over the line, without positions: \<open>pending\<close> is the
  text since the last match. It is shown below to compute \<open>line_segments\<close>.
\<close>

function scan_segments :: "string \<Rightarrow> string \<Rightarrow> segment list" where
  "scan_segments pending [] = text_segment pending"
| "scan_segments pending (c # cs) =
     (case match_marker (c # cs) of
        Some (digits, after) \<Rightarrow>
          text_segment pending @ VerseNumber digits # scan_segments [] after
      | None \<Rightarrow> scan_segments (pending @ [c]) cs)"
  by pat_completeness auto
termination
proof (relation "measure (\<lambda>(pending, rest). length rest)")
  show "wf (measure (\<lambda>(pending, rest). length rest))"
    by simp
next
  fix pending :: string and c cs x2 digits after
  assume "match_marker (c # cs) = Some x2" and "(digits, after) = x2"
  then have "after = tl (dropWhile is_digit cs)"
    by (auto simp: match_marker_def split: if_splits)
  moreover have "length (dropWhile is_digit cs) \<le> length cs"
    by (rule length_dropWhile_le)
  ultimately show "(([], after), (pending, c # cs)) \<in> measure (\<lambda>(pending, rest). length rest)"
    by simp
next
  fix pending :: string and c cs
  show "((pending @ [c], cs), (pending, c # cs)) \<in> measure (\<lambda>(pending, rest). length rest)"
    by simp
qed

text \<open>
  The prose elements in the words of the specification: a heading line gives a heading,
  a maximal run of lines that are not headings gives one body element, its lines stripped
  and joined with single spaces. The argument is the list of the non-blank lines.
\<close>

function prose_runs :: "string list \<Rightarrow> element list" where
  "prose_runs [] = []"
| "prose_runs (line # lines) =
     (if is_section_heading line then HeadingElem (strip line) # prose_runs lines
      else BodyElem (join (map strip
                (takeWhile (\<lambda>l. \<not> is_section_heading l) (line # lines))))
           # prose_runs (dropWhile (\<lambda>l. \<not> is_section_heading l) lines))"
  by pat_completeness auto
termination
proof (relation "measure length")
  show "wf (measure length)"
    by simp
next
  fix line :: string and lines :: "string list"
  show "(lines, line # lines) \<in> measure length"
    by simp
next
  fix line :: string and lines :: "string list"
  have "length (dropWhile (\<lambda>l. \<not> is_section_heading l) lines) \<le> length lines"
    by (rule length_dropWhile_le)
  then show "(dropWhile (\<lambda>l. \<not> is_section_heading l) lines, line # lines) \<in> measure length"
    by simp
qed

text \<open>
  One pass of the inner loop of the paginator: whether the line at the front is placed on
  the current slide, and the units it adds to \<^verbatim>\<open>lines_on_slide\<close>.
\<close>

definition placed ::
  "int \<Rightarrow> wrapped_line list \<Rightarrow> int \<Rightarrow> wrapped_line \<Rightarrow> wrapped_line list \<Rightarrow> bool" where
  "placed max_lines current_slide lines_on_slide line_item rest =
     (case line_item of
        Heading _ \<Rightarrow>
          \<not> (lines_on_slide + total_needed current_slide rest > max_lines \<and>
             length current_slide > 0)
      | _ \<Rightarrow> \<not> lines_on_slide + 1 > max_lines)"

definition cost :: "wrapped_line list \<Rightarrow> wrapped_line \<Rightarrow> int" where
  "cost current_slide line_item =
     (case line_item of Heading _ \<Rightarrow> lines_needed current_slide | _ \<Rightarrow> 1)"

text \<open>
  A slide respects the budget, or it is a single heading that was placed on an empty
  slide although one unit is more than the budget.
\<close>

definition within_budget :: "int \<Rightarrow> wrapped_line list \<Rightarrow> bool" where
  "within_budget max_lines slide \<longleftrightarrow>
     slide_units slide \<le> max_lines \<or> (max_lines < 1 \<and> (\<exists>t. slide = [Heading t]))"

definition non_blank :: "string \<Rightarrow> bool" where
  "non_blank line \<longleftrightarrow> strip line \<noteq> []"

text \<open>The characters of a string that are not whitespace, in order.\<close>

definition non_space :: "string \<Rightarrow> string" where
  "non_space s = filter (\<lambda>c. \<not> is_space c) s"

text \<open>A word: a non-empty string without whitespace.\<close>

definition is_word :: "string \<Rightarrow> bool" where
  "is_word w \<longleftrightarrow> w \<noteq> [] \<and> (\<forall>c \<in> set w. \<not> is_space c)"

text \<open>
  The width condition of a wrapped line: it fits, or it is one of the words and that word
  alone is wider than the line may be. The condition the wrapper keeps for
  \<^verbatim>\<open>current_line\<close>: it is empty, it fits, or it holds one word.
\<close>

definition line_ok :: "(string \<Rightarrow> real) \<Rightarrow> real \<Rightarrow> string list \<Rightarrow> string \<Rightarrow> bool" where
  "line_ok string_width max_width words line \<longleftrightarrow>
     string_width line \<le> max_width \<or> (line \<in> set words \<and> max_width < string_width line)"

definition current_ok :: "(string \<Rightarrow> real) \<Rightarrow> real \<Rightarrow> string list \<Rightarrow> string list \<Rightarrow> bool" where
  "current_ok string_width max_width words current_line \<longleftrightarrow>
     current_line = [] \<or> string_width (join current_line) \<le> max_width \<or>
     (\<exists>w \<in> set words. current_line = [w])"

text \<open>The end of \<open>line_segments\<close>: the text after the last match.\<close>

definition finish_segments :: "string \<Rightarrow> segment list \<times> nat \<Rightarrow> segment list" where
  "finish_segments line r =
     (case r of (segments, last_end) \<Rightarrow>
        if last_end < length line then segments @ [TextSeg (drop last_end line)] else segments)"

text \<open>The element of a non-blank line in a poetry passage.\<close>

definition poetry_element :: "string \<Rightarrow> element" where
  "poetry_element line =
     (if is_section_heading line then HeadingElem (strip line) else PoetryLine line)"

text \<open>
  The prose elements of the lines that follow a run in progress: \<open>current_body\<close> holds
  the stripped lines of the run so far.
\<close>

definition prose_from :: "string list \<Rightarrow> string list \<Rightarrow> element list" where
  "prose_from current_body lines =
     flush_body False
       (current_body @ map strip (takeWhile (\<lambda>l. \<not> is_section_heading l) lines))
     @ prose_runs (dropWhile (\<lambda>l. \<not> is_section_heading l) lines)"

text \<open>A string that is not empty and neither starts nor ends with whitespace.\<close>

definition trimmed :: "string \<Rightarrow> bool" where
  "trimmed s \<longleftrightarrow> s \<noteq> [] \<and> \<not> is_space (hd s) \<and> \<not> is_space (last s)"

text \<open>
  A measurement function under which a line can be narrower than one of its words: the
  word \<^verbatim>\<open>bb\<close> measures 100, every other string 10.
\<close>

definition lopsided_width :: "string \<Rightarrow> real" where
  "lopsided_width s = (if s = ''bb'' then 100 else 10)"

section \<open>Properties\<close>

subsection \<open>Wrapped lines of a poetry element\<close>

lemma format_poetry_line:
  "format_element string_width body_font_size (PoetryLine text) =
     map (Poetry (length text - length (lstrip_spaces text)))
       (wrap_text string_width
          (available_width
             - real (length text - length (lstrip_spaces text)) * (body_font_size * 0.3))
          (lstrip_spaces text))"
  by (simp add: Let_def enumerate_eq_zip map_snd_zip_take case_prod_unfold comp_def
      flip: map_map [of "Poetry _" snd, unfolded comp_def])

text \<open>
  Claim C1. Of the sub-lines of a wrapped poetry line only the first carries the indent of
  the line; the others are recorded with indent 0. The comments of the source say so, but
  both branches of its test \<^verbatim>\<open>i == 0\<close> record \<^verbatim>\<open>leading_spaces\<close>: the passage text
  \<^verbatim>\<open>"  ab cd"\<close>, a poetry line with two leading spaces that wraps into two sub-lines,
  gives two lines with indent 2.
\<close>

theorem poetry_continuation_keeps_indent:
  "format_lines (\<lambda>s. 400 * real (length s)) 64 (parse_passage_elements ''  ab cd'') =
     [Poetry 2 ''ab'', Poetry 2 ''cd'']"
proof -
  have "parse_passage_elements ''  ab cd'' = [PoetryLine ''  ab cd'']"
    by (simp add: parse_passage_elements_def is_poetry_def split_lines_def strip_def
        is_space_def is_section_heading_def flush_body_def)
  moreover have "format_element (\<lambda>s. 400 * real (length s)) 64 (PoetryLine ''  ab cd'') =
      [Poetry 2 ''ab'', Poetry 2 ''cd'']"
    by (simp add: lstrip_spaces_def wrap_text_def split_def is_space_def available_width_def
        SLIDE_WIDTH_def MARGIN_LEFT_def MARGIN_RIGHT_def enumerate_eq_zip)
  ultimately show ?thesis
    by (simp add: format_lines_def)
qed

subsection \<open>Paginator\<close>

lemma lines_needed_if: "lines_needed cs = (if cs = [] then 1 else 2)"
  by (simp add: lines_needed_def)

lemma fill_slide_Cons:
  "fill_slide ml cs n (l # rest) =
     (if placed ml cs n l rest then fill_slide ml (cs @ [l]) (n + cost cs l) rest
      else (cs, n, l # rest))"
  by (cases l) (simp_all add: placed_def cost_def)

lemma fill_slide_split:
  "fill_slide ml cs n rest = (cs', n', rest') \<Longrightarrow> \<exists>taken. cs' = cs @ taken \<and> rest = taken @ rest'"
proof (induction rest arbitrary: cs n)
  case Nil
  then show ?case by simp
next
  case (Cons l rest)
  show ?case
  proof (cases "placed ml cs n l rest")
    case False
    with Cons.prems show ?thesis by (simp add: fill_slide_Cons)
  next
    case True
    with Cons.prems have "fill_slide ml (cs @ [l]) (n + cost cs l) rest = (cs', n', rest')"
      by (simp add: fill_slide_Cons)
    from Cons.IH[OF this] obtain taken where "cs' = (cs @ [l]) @ taken" and "rest = taken @ rest'"
      by blast
    then have "cs' = cs @ (l # taken) \<and> l # rest = (l # taken) @ rest'"
      by simp
    then show ?thesis by blast
  qed
qed

lemma paginate_loop_stuck:
  assumes "rest \<noteq> []" and "fill_slide ml [] 0 rest = ([], n, rest)"
  shows "paginate_loop ml rest slides = None"
proof -
  have "paginate_loop m r s = Some out \<Longrightarrow> \<not> (m = ml \<and> r = rest)" for m r s out
  proof (induction rule: paginate_loop.raw_induct[rotated 1, consumes 1])
    case (1 pl m r s out)
    show ?case
    proof
      assume "m = ml \<and> r = rest"
      with 1(2) assms have "pl ml rest s = Some out"
        by simp
      from 1(1)[OF this] show False
        by simp
    qed
  qed
  then show ?thesis
    by (cases "paginate_loop ml rest slides") auto
qed

lemma fill_slide_progress:
  assumes "1 \<le> ml" "rest \<noteq> []" "fill_slide ml [] 0 rest = (cs, n, rest')"
  shows "cs \<noteq> [] \<and> length rest' < length rest"
proof -
  from assms(2) obtain l r where rest: "rest = l # r" by (cases rest) auto
  have "placed ml [] 0 l r" using assms(1) by (cases l) (simp_all add: placed_def)
  with assms(3) rest have "fill_slide ml [l] (cost [] l) r = (cs, n, rest')"
    by (simp add: fill_slide_Cons)
  from fill_slide_split[OF this] obtain taken where "cs = [l] @ taken" "r = taken @ rest'" by blast
  with rest show ?thesis by simp
qed

lemma paginate_loop_total:
  assumes "1 \<le> ml"
  shows "\<exists>new. paginate_loop ml rest slides = Some (slides @ new) \<and> concat new = rest"
proof (induction "length rest" arbitrary: rest slides rule: less_induct)
  case less
  show ?case
  proof (cases "rest = []")
    case True
    then show ?thesis by (simp add: paginate_loop.simps)
  next
    case False
    obtain cs n rest' where f: "fill_slide ml [] 0 rest = (cs, n, rest')"
      by (cases "fill_slide ml [] 0 rest") auto
    from fill_slide_progress[OF assms False f] have cs: "cs \<noteq> []" and len: "length rest' < length rest"
      by simp_all
    from fill_slide_split[OF f] have rest: "rest = cs @ rest'" by auto
    from less[OF len, of "slides @ [cs]"] obtain new where
      new: "paginate_loop ml rest' (slides @ [cs]) = Some ((slides @ [cs]) @ new)" "concat new = rest'"
      by blast
    have "paginate_loop ml rest slides = paginate_loop ml rest' (slides @ [cs])"
      using False f cs by (subst paginate_loop.simps) simp
    with new rest have "paginate_loop ml rest slides = Some (slides @ (cs # new)) \<and> concat (cs # new) = rest"
      by simp
    then show ?thesis by blast
  qed
qed

text \<open>
  With a budget below one unit every heading is forced onto a slide of its own, and the
  first body or poetry line is never placed: the run ends only when all lines are
  headings.
\<close>

lemma fill_slide_forced_heading:
  assumes "ml < 1"
  shows "fill_slide ml [] 0 (Heading t # rest) = ([Heading t], 1, rest)"
proof -
  have "fill_slide ml [Heading t] 1 rest = ([Heading t], 1, rest)"
  proof (cases rest)
    case Nil
    then show ?thesis by simp
  next
    case (Cons l r)
    have "1 \<le> total_needed [Heading t] r"
      by (simp add: total_needed_def lines_needed_def)
    with assms have "\<not> placed ml [Heading t] 1 l r"
      by (cases l) (simp_all add: placed_def)
    with Cons show ?thesis
      by (simp add: fill_slide_Cons)
  qed
  then show ?thesis
    by (simp add: lines_needed_def)
qed

lemma paginate_loop_never_ends:
  assumes "ml < 1" and "\<exists>l \<in> set rest. \<forall>t. l \<noteq> Heading t"
  shows "paginate_loop ml rest slides = None"
  using assms(2)
proof (induction rest arbitrary: slides)
  case Nil
  then show ?case by simp
next
  case (Cons l rest)
  show ?case
  proof (cases "\<exists>t. l = Heading t")
    case True
    then obtain t where l: "l = Heading t"
      by blast
    with Cons.prems have "\<exists>l \<in> set rest. \<forall>t. l \<noteq> Heading t"
      by simp
    from Cons.IH[OF this] have "paginate_loop ml rest (slides @ [[Heading t]]) = None" .
    with l fill_slide_forced_heading[OF assms(1)] show ?thesis
      by (subst paginate_loop.simps) simp
  next
    case False
    with assms(1) have "\<not> placed ml [] 0 l rest"
      by (cases l) (simp_all add: placed_def)
    then have "fill_slide ml [] 0 (l # rest) = ([], 0, l # rest)"
      by (simp add: fill_slide_Cons)
    then show ?thesis
      by (intro paginate_loop_stuck[where n = 0]) simp_all
  qed
qed

lemma units_from_snoc:
  "units_from first (xs @ [l]) =
     units_from first xs + (case l of Heading _ \<Rightarrow> (if first \<and> xs = [] then 1 else 2) | _ \<Rightarrow> 1)"
  by (induction first xs rule: units_from.induct) (auto split: wrapped_line.splits)

lemma slide_units_snoc: "slide_units (cs @ [l]) = slide_units cs + cost cs l"
  by (auto simp: slide_units_def units_from_snoc cost_def lines_needed_if split: wrapped_line.splits)

lemma fill_slide_units:
  "fill_slide ml cs n rest = (cs', n', rest') \<Longrightarrow> n = slide_units cs \<Longrightarrow> n' = slide_units cs'"
proof (induction rest arbitrary: cs n)
  case Nil
  then show ?case by auto
next
  case (Cons l rest)
  show ?case
  proof (cases "placed ml cs n l rest")
    case False
    with Cons.prems show ?thesis by (auto simp: fill_slide_Cons)
  next
    case True
    with Cons.prems have "fill_slide ml (cs @ [l]) (n + cost cs l) rest = (cs', n', rest')"
      by (simp add: fill_slide_Cons)
    moreover have "n + cost cs l = slide_units (cs @ [l])"
      using Cons.prems(2) by (simp add: slide_units_snoc)
    ultimately show ?thesis by (rule Cons.IH)
  qed
qed

lemma fill_slide_budget:
  "fill_slide ml cs n rest = (cs', n', rest') \<Longrightarrow> n = slide_units cs \<Longrightarrow>
     cs = [] \<or> within_budget ml cs \<Longrightarrow> cs' = [] \<or> within_budget ml cs'"
proof (induction rest arbitrary: cs n)
  case Nil
  then show ?case by auto
next
  case (Cons l rest)
  show ?case
  proof (cases "placed ml cs n l rest")
    case False
    with Cons.prems show ?thesis by (auto simp: fill_slide_Cons)
  next
    case True
    with Cons.prems have f: "fill_slide ml (cs @ [l]) (n + cost cs l) rest = (cs', n', rest')"
      by (simp add: fill_slide_Cons)
    have u: "n + cost cs l = slide_units (cs @ [l])"
      using Cons.prems(2) by (simp add: slide_units_snoc)
    have "within_budget ml (cs @ [l])"
    proof (cases l)
      case (Heading t)
      show ?thesis
      proof (cases "cs = []")
        case True
        then show ?thesis
          using Heading by (auto simp: within_budget_def slide_units_def)
      next
        case False
        with \<open>placed ml cs n l rest\<close> Heading have "n + total_needed cs rest \<le> ml"
          by (simp add: placed_def)
        moreover have "lines_needed cs \<le> total_needed cs rest"
          by (simp add: total_needed_def)
        ultimately show ?thesis
          using u Heading by (simp add: within_budget_def cost_def)
      qed
    next
      case (Body x2)
      then show ?thesis
        using True u by (simp add: within_budget_def placed_def cost_def)
    next
      case (Poetry x31 x32)
      then show ?thesis
        using True u by (simp add: within_budget_def placed_def cost_def)
    qed
    then have "cs @ [l] = [] \<or> within_budget ml (cs @ [l])"
      by simp
    from Cons.IH[OF f u this] show ?thesis .
  qed
qed

lemma paginate_loop_all:
  assumes "paginate_loop ml rest slides = Some out"
    and "\<forall>s \<in> set slides. P ml s"
    and "\<And>m r cs n r'. fill_slide m [] 0 r = (cs, n, r') \<Longrightarrow> cs \<noteq> [] \<Longrightarrow> P m cs"
  shows "\<forall>s \<in> set out. P ml s"
  using assms(1,2)
proof (induction rule: paginate_loop.raw_induct[rotated 1, consumes 1])
  case (1 pl m r s out)
  show ?case
  proof (cases "r = []")
    case True
    with 1 show ?thesis by simp
  next
    case False
    obtain cs n r' where f: "fill_slide m [] 0 r = (cs, n, r')"
      by (cases "fill_slide m [] 0 r") auto
    from 1(2) False f have "pl m r' (if cs \<noteq> [] then s @ [cs] else s) = Some out"
      by simp
    moreover have "\<forall>x \<in> set (if cs \<noteq> [] then s @ [cs] else s). P m x"
      using 1(3) assms(3)[OF f] by auto
    ultimately show ?thesis
      by (rule 1(1))
  qed
qed

lemma fill_slide_no_split:
  assumes "2 \<le> ml"
  shows "cs = [] \<longrightarrow> n = 0 \<Longrightarrow>
         fill_slide ml cs n (xs @ Heading h # Body b # ys) = (cs', n', rest') \<Longrightarrow>
         length rest' \<noteq> Suc (length ys)"
proof (induction xs arbitrary: cs n)
  case Nil
  show ?case
  proof (cases "placed ml cs n (Heading h) (Body b # ys)")
    case False
    with Nil.prems show ?thesis by (auto simp: fill_slide_Cons)
  next
    case True
    have fit: "n + lines_needed cs + 1 \<le> ml"
    proof (cases "cs = []")
      case True
      with Nil.prems(1) assms show ?thesis by (simp add: lines_needed_if)
    next
      case False
      with True show ?thesis by (simp add: placed_def total_needed_def)
    qed
    then have "placed ml (cs @ [Heading h]) (n + lines_needed cs) (Body b) ys"
      by (simp add: placed_def)
    with True Nil.prems(2) have
      "fill_slide ml (cs @ [Heading h] @ [Body b]) (n + lines_needed cs + 1) ys = (cs', n', rest')"
      by (simp add: fill_slide_Cons cost_def)
    from fill_slide_split[OF this] obtain taken where "ys = taken @ rest'"
      by blast
    then have "length rest' \<le> length ys"
      by simp
    then show ?thesis by simp
  qed
next
  case (Cons x xs)
  show ?case
  proof (cases "placed ml cs n x (xs @ Heading h # Body b # ys)")
    case False
    with Cons.prems show ?thesis by (auto simp: fill_slide_Cons)
  next
    case True
    with Cons.prems(2) have
      "fill_slide ml (cs @ [x]) (n + cost cs x) (xs @ Heading h # Body b # ys) = (cs', n', rest')"
      by (simp add: fill_slide_Cons)
    moreover have "cs @ [x] = [] \<longrightarrow> n + cost cs x = 0"
      by simp
    ultimately show ?thesis
      by (rule Cons.IH[rotated])
  qed
qed

lemma paginate_loop_keeps_heading_with_body:
  assumes "2 \<le> ml"
  shows "\<exists>before pre post after.
           paginate_loop ml (xs @ Heading h # Body b # ys) slides =
             Some (slides @ before @ (pre @ Heading h # Body b # post) # after) \<and>
           concat before @ pre = xs"
proof (induction "length xs" arbitrary: xs slides rule: less_induct)
  case less
  let ?rest = "xs @ Heading h # Body b # ys"
  have ml1: "1 \<le> ml" using assms by simp
  obtain cs n rest' where f: "fill_slide ml [] 0 ?rest = (cs, n, rest')"
    by (cases "fill_slide ml [] 0 ?rest") auto
  from fill_slide_progress[OF ml1 _ f] have cs: "cs \<noteq> []"
    by simp
  from fill_slide_split[OF f] have rest: "?rest = cs @ rest'"
    by auto
  have step: "paginate_loop ml ?rest slides = paginate_loop ml rest' (slides @ [cs])"
    using f cs by (subst paginate_loop.simps) simp
  from fill_slide_no_split[OF assms _ f] have no: "rest' \<noteq> Body b # ys"
    by auto
  from rest have "(\<exists>us. xs = cs @ us \<and> us @ Heading h # Body b # ys = rest') \<or>
                  (\<exists>us. xs @ us = cs \<and> Heading h # Body b # ys = us @ rest')"
    by (simp add: append_eq_append_conv2) blast
  then consider
      (later) us where "xs = cs @ us" and "rest' = us @ Heading h # Body b # ys"
    | (here) post where "cs = xs @ Heading h # Body b # post"
  proof (elim disjE exE conjE)
    fix us
    assume "xs = cs @ us" and "us @ Heading h # Body b # ys = rest'"
    then show ?thesis using later by blast
  next
    fix us
    assume a: "xs @ us = cs" and b: "Heading h # Body b # ys = us @ rest'"
    show ?thesis
    proof (cases us)
      case Nil
      with a b have "xs = cs @ []" and "rest' = [] @ Heading h # Body b # ys"
        by simp_all
      then show ?thesis by (rule later)
    next
      case (Cons u us')
      with b have u: "u = Heading h" and b': "Body b # ys = us' @ rest'"
        by simp_all
      show ?thesis
      proof (cases us')
        case Nil
        with b' no show ?thesis by simp
      next
        case (Cons u' us'')
        with b' have "u' = Body b"
          by simp
        with a u \<open>us = u # us'\<close> Cons have "cs = xs @ Heading h # Body b # us''"
          by simp
        then show ?thesis by (rule here)
      qed
    qed
  qed
  then show ?case
  proof cases
    case later
    have "length us < length xs"
      using cs later(1) by (cases cs) auto
    from less[OF this, of "slides @ [cs]"] obtain before pre post after where
      "paginate_loop ml (us @ Heading h # Body b # ys) (slides @ [cs]) =
         Some ((slides @ [cs]) @ before @ (pre @ Heading h # Body b # post) # after)"
      and "concat before @ pre = us"
      by blast
    with step later have
      "paginate_loop ml ?rest slides =
         Some (slides @ (cs # before) @ (pre @ Heading h # Body b # post) # after) \<and>
       concat (cs # before) @ pre = xs"
      by simp
    then show ?thesis by blast
  next
    case here
    from paginate_loop_total[OF ml1, of rest' "slides @ [cs]"] obtain new where
      "paginate_loop ml rest' (slides @ [cs]) = Some ((slides @ [cs]) @ new)"
      by blast
    with here step have "paginate_loop ml ?rest slides =
         Some (slides @ [] @ (xs @ Heading h # Body b # post) # new) \<and>
       concat [] @ xs = xs"
      by simp
    then show ?thesis by blast
  qed
qed


lemma py_int_floor: "1 \<le> py_int x \<Longrightarrow> py_int x = \<lfloor>x\<rfloor>"
  by (auto simp: py_int_def split: if_splits)

lemma floor_le_py_int: "\<lfloor>x\<rfloor> \<le> py_int x"
  by (simp add: py_int_def)

lemma slide_units_pos: "slide \<noteq> [] \<Longrightarrow> 1 \<le> slide_units slide"
proof -
  have "0 \<le> units_from first xs" for first xs
    by (induction first xs rule: units_from.induct) auto
  from this[of False "tl slide"] show "slide \<noteq> [] \<Longrightarrow> 1 \<le> slide_units slide"
    by (cases slide; cases "hd slide") (auto simp: slide_units_def)
qed

lemma paginate_evals:
  "paginate 810 270 [Poetry 0 ''a'', Heading ''h'', Poetry 0 ''b''] =
     Some (Inr [[Poetry 0 ''a'', Heading ''h''], [Poetry 0 ''b'']])"
  "paginate 810 270 [Poetry 0 ''a'', Heading ''h'', Body ''b''] =
     Some (Inr [[Poetry 0 ''a''], [Heading ''h'', Body ''b'']])"
  by (simp_all add: paginate_def py_int_def paginate_loop.simps lines_needed_def total_needed_def)

text \<open>
  Claim C2. A body or poetry line that meets an empty slide is placed even when one unit
  is more than the budget, so the pagination of every finite sequence of wrapped lines
  ends. The source does not do this: only the heading branch has the test
  \<^verbatim>\<open>len(current_slide) > 0\<close>. With a body font size of 600 the line height is 900, the
  budget \<^verbatim>\<open>int(810 / 900)\<close> is 0, and the passage text \<^verbatim>\<open>[1] a\<close> gives one body line
  that is never placed: every pass of the outer loop leaves the slide empty and the line
  index where it was, and the run never ends.
\<close>

theorem body_line_on_empty_slide_never_placed:
  "create_body_slides (\<lambda>s. 300 * real (length s)) 600 ''[1] a'' = None"
proof -
  have lines: "format_lines (\<lambda>s. 300 * real (length s)) 600 (parse_passage_elements ''[1] a'')
      = [Body ''[1] a'']"
    by (simp add: format_lines_def parse_passage_elements_def is_poetry_def split_lines_def
        strip_def is_space_def is_section_heading_def match_marker_def is_digit_def
        flush_body_def wrap_text_def split_def available_width_def SLIDE_WIDTH_def
        MARGIN_LEFT_def MARGIN_RIGHT_def)
  have "paginate_loop 0 [Body ''[1] a''] [] = None"
    by (rule paginate_loop_stuck[where n = 0]) simp_all
  then have "paginate available_height (600 * 1.5) [Body ''[1] a''] = None"
    by (simp add: paginate_def py_int_def available_height_def SLIDE_HEIGHT_def
        MARGIN_TOP_def MARGIN_BOTTOM_def)
  with lines show ?thesis
    by (simp add: create_body_slides_def)
qed

text \<open>
  Claim C3. When a heading is directly followed by a body line and the budget has room
  for a heading with its gap and one body line (three units), the pagination ends and the
  two lines are on the same slide: the lines before the heading fill the slides \<open>before\<close>
  and the part \<open>pre\<close> of the heading's slide, which is empty when the break came before
  the heading.
\<close>

theorem heading_stays_with_body:
  assumes "line_height \<noteq> 0" and "3 \<le> \<lfloor>avail_height / line_height\<rfloor>"
  shows "\<exists>before pre post after.
           paginate avail_height line_height (xs @ Heading h # Body b # ys) =
             Some (Inr (before @ (pre @ Heading h # Body b # post) # after)) \<and>
           concat before @ pre = xs"
proof -
  from assms(2) floor_le_py_int[of "avail_height / line_height"]
  have "2 \<le> py_int (avail_height / line_height)"
    by linarith
  from paginate_loop_keeps_heading_with_body[OF this, of xs h b ys "[]"] assms(1)
  show ?thesis
    by (simp add: paginate_def)
qed

theorem heading_stays_with_body_witness:
  "(270 :: real) \<noteq> 0 \<and> 3 \<le> \<lfloor>(810 :: real) / 270\<rfloor> \<and>
   (\<exists>before pre post after.
      paginate 810 270 ([Poetry 0 ''a''] @ Heading ''h'' # Body ''b'' # []) =
        Some (Inr (before @ (pre @ Heading ''h'' # Body ''b'' # post) # after)) \<and>
      concat before @ pre = [Poetry 0 ''a''])"
  using heading_stays_with_body[of 270 810 "[Poetry 0 ''a'']" "''h''" "''b''" "[]"]
  by simp

lemma fill_slide_first_pass:
  assumes "fill_slide ml [] 0 rest = (cs, n, rest')" and "cs \<noteq> []"
  shows "n = slide_units cs" and "within_budget ml cs"
proof -
  from fill_slide_units[OF assms(1)] show "n = slide_units cs"
    by (simp add: slide_units_def)
  from fill_slide_budget[OF assms(1)] assms(2) show "within_budget ml cs"
    by (simp add: slide_units_def)
qed

lemma within_budget_floor:
  assumes "s \<noteq> []" and "within_budget (py_int x) s"
  shows "slide_units s \<le> \<lfloor>x\<rfloor> \<or> (\<lfloor>x\<rfloor> < 1 \<and> (\<exists>t. s = [Heading t]))"
proof (cases "1 \<le> py_int x")
  case True
  with assms(2) py_int_floor[OF True] show ?thesis
    by (simp add: within_budget_def)
next
  case False
  with assms slide_units_pos[OF assms(1)] have "\<exists>t. s = [Heading t]"
    by (auto simp: within_budget_def)
  moreover from False floor_le_py_int[of x] have "\<lfloor>x\<rfloor> < 1"
    by linarith
  ultimately show ?thesis by simp
qed

text \<open>
  Claim C4. Every slide the paginator draws is non-empty, and its units (one for a body or
  poetry line, one for a heading that is first on the slide, two for any other heading)
  are at most \<open>maxLines = \<lfloor>availableHeight / lineHeight\<rfloor>\<close>, unless the slide is a single
  heading placed on an empty slide although one unit is more than the budget. The first
  part is about the slides of a run that has ended; the second about the slide of any one
  pass of the outer loop, also in a run that never ends, and says that the units are the
  count \<^verbatim>\<open>lines_on_slide\<close> of the source.
\<close>

theorem slides_within_budget:
  "(paginate avail_height line_height formatted_lines = Some (Inr slides) \<longrightarrow>
      (\<forall>slide \<in> set slides.
         slide \<noteq> [] \<and>
         (slide_units slide \<le> \<lfloor>avail_height / line_height\<rfloor> \<or>
          (\<lfloor>avail_height / line_height\<rfloor> < 1 \<and> (\<exists>t. slide = [Heading t]))))) \<and>
   (fill_slide (py_int (avail_height / line_height)) [] 0 rest = (slide, lines_on_slide, rest') \<and>
    slide \<noteq> [] \<longrightarrow>
      lines_on_slide = slide_units slide \<and>
      (slide_units slide \<le> \<lfloor>avail_height / line_height\<rfloor> \<or>
       (\<lfloor>avail_height / line_height\<rfloor> < 1 \<and> (\<exists>t. slide = [Heading t]))))"
proof (intro conjI impI)
  let ?ml = "py_int (avail_height / line_height)"
  assume run: "paginate avail_height line_height formatted_lines = Some (Inr slides)"
  show "\<forall>slide \<in> set slides.
         slide \<noteq> [] \<and>
         (slide_units slide \<le> \<lfloor>avail_height / line_height\<rfloor> \<or>
          (\<lfloor>avail_height / line_height\<rfloor> < 1 \<and> (\<exists>t. slide = [Heading t])))"
  proof (cases "formatted_lines = [] \<or> line_height = 0")
    case True
    with run show ?thesis
      by (auto simp: paginate_def split: if_splits)
  next
    case False
    with run have loop: "paginate_loop ?ml formatted_lines [] = Some slides"
      by (auto simp: paginate_def)
    have "\<forall>s \<in> set slides. s \<noteq> [] \<and> within_budget ?ml s"
    proof (rule paginate_loop_all[OF loop])
      show "\<forall>s \<in> set []. s \<noteq> [] \<and> within_budget ?ml s"
        by simp
    next
      fix m r cs n r'
      assume "fill_slide m [] 0 r = (cs, n, r')" and "cs \<noteq> []"
      then show "cs \<noteq> [] \<and> within_budget m cs"
        by (simp add: fill_slide_first_pass)
    qed
    then have "\<forall>s \<in> set slides. s \<noteq> [] \<and>
        (slide_units s \<le> \<lfloor>avail_height / line_height\<rfloor> \<or>
         (\<lfloor>avail_height / line_height\<rfloor> < 1 \<and> (\<exists>t. s = [Heading t])))"
      using within_budget_floor[of _ "avail_height / line_height"] by blast
    then show ?thesis .
  qed
next
  assume "fill_slide (py_int (avail_height / line_height)) [] 0 rest = (slide, lines_on_slide, rest') \<and>
    slide \<noteq> []"
  then have f: "fill_slide (py_int (avail_height / line_height)) [] 0 rest =
      (slide, lines_on_slide, rest')" and ne: "slide \<noteq> []"
    by simp_all
  from fill_slide_first_pass(1)[OF f ne] show "lines_on_slide = slide_units slide" .
  from within_budget_floor[OF ne fill_slide_first_pass(2)[OF f ne]]
  show "slide_units slide \<le> \<lfloor>avail_height / line_height\<rfloor> \<or>
       (\<lfloor>avail_height / line_height\<rfloor> < 1 \<and> (\<exists>t. slide = [Heading t]))" .
qed

lemma fill_slide_eval:
  "fill_slide (py_int (810 / 270)) [] 0 [Poetry 0 ''a'', Heading ''h'', Body ''b''] =
     ([Poetry 0 ''a''], 1, [Heading ''h'', Body ''b''])"
  by (simp add: py_int_def lines_needed_def total_needed_def)

theorem slides_within_budget_witness:
  "paginate 810 270 [Poetry 0 ''a'', Heading ''h'', Body ''b''] =
     Some (Inr [[Poetry 0 ''a''], [Heading ''h'', Body ''b'']]) \<and>
   [Poetry 0 ''a''] \<noteq> [] \<and>
   slide_units [Poetry 0 ''a''] \<le> \<lfloor>(810 :: real) / 270\<rfloor> \<and>
   [Heading ''h'', Body ''b''] \<noteq> [] \<and>
   slide_units [Heading ''h'', Body ''b''] \<le> \<lfloor>(810 :: real) / 270\<rfloor> \<and>
   fill_slide (py_int (810 / 270)) [] 0 [Poetry 0 ''a'', Heading ''h'', Body ''b''] =
     ([Poetry 0 ''a''], 1, [Heading ''h'', Body ''b'']) \<and>
   1 = slide_units [Poetry 0 ''a'']"
  using slides_within_budget[of 810 270 "[Poetry 0 ''a'', Heading ''h'', Body ''b'']"
      "[[Poetry 0 ''a''], [Heading ''h'', Body ''b'']]"
      "[Poetry 0 ''a'', Heading ''h'', Body ''b'']" "[Poetry 0 ''a'']" 1
      "[Heading ''h'', Body ''b'']"]
    paginate_evals(2) fill_slide_eval
  by simp

text \<open>
  Claim C10. The look-ahead of a heading counts an extra unit only when the next wrapped
  line is a body line: before a poetry line, before another heading and at the end of the
  sequence the heading needs its own units only. With a budget of three units a heading
  after one poetry line is placed, fills the slide, and the poetry line that follows it
  starts the next slide; with a body line in its place the break comes before the
  heading.
\<close>

theorem heading_lookahead_only_for_body:
  "total_needed current_slide (Poetry indent t # rest) = lines_needed current_slide \<and>
   total_needed current_slide (Heading t # rest) = lines_needed current_slide \<and>
   total_needed current_slide [] = lines_needed current_slide \<and>
   total_needed current_slide (Body b # rest) = lines_needed current_slide + 1 \<and>
   paginate 810 270 [Poetry 0 ''a'', Heading ''h'', Poetry 0 ''b''] =
     Some (Inr [[Poetry 0 ''a'', Heading ''h''], [Poetry 0 ''b'']]) \<and>
   paginate 810 270 [Poetry 0 ''a'', Heading ''h'', Body ''b''] =
     Some (Inr [[Poetry 0 ''a''], [Heading ''h'', Body ''b'']])"
  by (simp add: total_needed_def paginate_evals)

subsection \<open>Line wrapper\<close>

lemma split_from_words:
  "\<forall>c \<in> set word. \<not> is_space c \<Longrightarrow> \<forall>w \<in> set (split_from word s). is_word w"
proof (induction s arbitrary: word)
  case Nil
  then show ?case by (simp add: is_word_def)
next
  case (Cons c s)
  show ?case
  proof (cases "is_space c")
    case True
    from Cons.IH[of "[]"] have "\<forall>w \<in> set (split_from [] s). is_word w"
      by simp
    with True Cons.prems show ?thesis
      by (simp add: is_word_def)
  next
    case False
    with Cons.prems have "\<forall>c \<in> set (word @ [c]). \<not> is_space c"
      by simp
    from Cons.IH[OF this] False show ?thesis
      by simp
  qed
qed

lemma split_words: "\<forall>w \<in> set (split s). is_word w"
  using split_from_words[of "[]" s] by (simp add: split_def)

lemma split_from_no_space:
  "\<forall>c \<in> set w. \<not> is_space c \<Longrightarrow> split_from word (w @ s) = split_from (word @ w) s"
  by (induction w arbitrary: word) auto

lemma is_space_blank: "is_space CHR '' ''"
  by (simp add: is_space_def)

lemma split_word: "is_word w \<Longrightarrow> split w = [w]"
  using split_from_no_space[of w "[]" "[]"] by (simp add: split_def is_word_def)

lemma split_join: "\<forall>w \<in> set ws. is_word w \<Longrightarrow> split (join ws) = ws"
proof (induction ws rule: join.induct)
  case 1
  then show ?case by (simp add: split_def)
next
  case (2 x)
  then show ?case by (simp add: split_word)
next
  case (3 x y ys)
  then have x: "\<forall>c \<in> set x. \<not> is_space c" and "x \<noteq> []"
    by (simp_all add: is_word_def)
  then have "split (join (x # y # ys)) = x # split (join (y # ys))"
    by (simp add: split_def split_from_no_space is_space_blank)
  with 3 show ?case by simp
qed

lemma current_ok_flush:
  "current_ok sw mw W cur \<Longrightarrow> cur \<noteq> [] \<Longrightarrow> line_ok sw mw W (join cur)"
  by (auto simp: current_ok_def line_ok_def)

lemma wrap_words_widths:
  "wrap_words sw mw lines cur words = (lines', cur') \<Longrightarrow>
   \<forall>l \<in> set lines. line_ok sw mw W l \<Longrightarrow> current_ok sw mw W cur \<Longrightarrow> set words \<subseteq> set W \<Longrightarrow>
   (\<forall>l \<in> set lines'. line_ok sw mw W l) \<and> current_ok sw mw W cur'"
proof (induction words arbitrary: lines cur)
  case Nil
  then show ?case by auto
next
  case (Cons w words)
  show ?case
  proof (cases "sw (join (cur @ [w])) \<le> mw")
    case True
    with Cons.prems(1) have "wrap_words sw mw lines (cur @ [w]) words = (lines', cur')"
      by simp
    moreover from True have "current_ok sw mw W (cur @ [w])"
      by (simp add: current_ok_def)
    ultimately show ?thesis
      using Cons.prems(2,4) by (intro Cons.IH) auto
  next
    case False
    let ?lines = "if cur \<noteq> [] then lines @ [join cur] else lines"
    from False Cons.prems(1) have "wrap_words sw mw ?lines [w] words = (lines', cur')"
      by simp
    moreover have "\<forall>l \<in> set ?lines. line_ok sw mw W l"
      using Cons.prems(2,3) by (auto dest: current_ok_flush)
    moreover have "current_ok sw mw W [w]"
      using Cons.prems(4) by (simp add: current_ok_def)
    ultimately show ?thesis
      using Cons.prems(4) by (intro Cons.IH) auto
  qed
qed

lemma wrap_text_line_ok:
  "\<forall>l \<in> set (wrap_text string_width max_width text).
     line_ok string_width max_width (split text) l"
proof -
  obtain lines cur where w: "wrap_words string_width max_width [] [] (split text) = (lines, cur)"
    by (cases "wrap_words string_width max_width [] [] (split text)") auto
  from wrap_words_widths[OF w, of "split text"]
  have "\<forall>l \<in> set lines. line_ok string_width max_width (split text) l"
    and "current_ok string_width max_width (split text) cur"
    by (simp_all add: current_ok_def)
  then show ?thesis
    using w by (auto simp: wrap_text_def dest: current_ok_flush)
qed

lemma wrap_words_joined:
  "wrap_words sw mw lines cur words = (lines', cur') \<Longrightarrow>
   \<forall>w \<in> set cur \<union> set words. is_word w \<Longrightarrow>
   \<forall>l \<in> set lines. join (split l) = l \<Longrightarrow>
   (\<forall>l \<in> set lines'. join (split l) = l) \<and> (\<forall>w \<in> set cur'. is_word w)"
proof (induction words arbitrary: lines cur)
  case Nil
  then show ?case by auto
next
  case (Cons w words)
  show ?case
  proof (cases "sw (join (cur @ [w])) \<le> mw")
    case True
    with Cons.prems(1) have "wrap_words sw mw lines (cur @ [w]) words = (lines', cur')"
      by simp
    from Cons.IH[OF this] Cons.prems(2,3) show ?thesis
      by simp
  next
    case False
    let ?lines = "if cur \<noteq> [] then lines @ [join cur] else lines"
    from False Cons.prems(1) have "wrap_words sw mw ?lines [w] words = (lines', cur')"
      by simp
    moreover have "\<forall>l \<in> set ?lines. join (split l) = l"
      using Cons.prems(2,3) by (simp add: split_join)
    ultimately show ?thesis
      using Cons.prems(2) by (intro Cons.IH) auto
  qed
qed

lemma wrap_text_joined:
  "\<forall>line \<in> set (wrap_text string_width max_width text). join (split line) = line"
proof -
  obtain lines cur where w: "wrap_words string_width max_width [] [] (split text) = (lines, cur)"
    by (cases "wrap_words string_width max_width [] [] (split text)") auto
  from wrap_words_joined[OF w] split_words[of "text"]
  have "\<forall>l \<in> set lines. join (split l) = l" and "\<forall>w \<in> set cur. is_word w"
    by simp_all
  then show ?thesis
    using w by (auto simp: wrap_text_def split_join)
qed

text \<open>
  When a line is at least as wide as each of its words, as with the widths of a font, a
  word wider than \<open>max_width\<close> is always alone on its line.
\<close>

lemma oversized_word_alone:
  assumes mono: "\<And>ws w. w \<in> set ws \<Longrightarrow> string_width w \<le> string_width (join ws)"
    and line: "line \<in> set (wrap_text string_width max_width text)"
    and w: "w \<in> set (split line)" and over: "max_width < string_width w"
  shows "line = w"
proof -
  from wrap_text_line_ok line have "line_ok string_width max_width (split text) line"
    by blast
  with split_words[of "text"] have "string_width line \<le> max_width \<or> split line = [line]"
    by (auto simp: line_ok_def split_word)
  then show ?thesis
  proof
    assume fit: "string_width line \<le> max_width"
    from mono[OF w] wrap_text_joined line have "string_width w \<le> string_width line"
      by simp
    with fit over show ?thesis by simp
  next
    assume "split line = [line]"
    with w show ?thesis by simp
  qed
qed

lemma wrap_words_words:
  "wrap_words sw mw lines cur words = (lines', cur') \<Longrightarrow>
   \<forall>w \<in> set cur \<union> set words. is_word w \<Longrightarrow>
   concat (map split lines') @ cur' = concat (map split lines) @ cur @ words \<and>
   (\<forall>w \<in> set cur'. is_word w)"
proof (induction words arbitrary: lines cur)
  case Nil
  then show ?case by auto
next
  case (Cons w words)
  show ?case
  proof (cases "sw (join (cur @ [w])) \<le> mw")
    case True
    with Cons.prems(1) have "wrap_words sw mw lines (cur @ [w]) words = (lines', cur')"
      by simp
    from Cons.IH[OF this] Cons.prems(2) show ?thesis
      by simp
  next
    case False
    let ?lines = "if cur \<noteq> [] then lines @ [join cur] else lines"
    from False Cons.prems(1) have "wrap_words sw mw ?lines [w] words = (lines', cur')"
      by simp
    from Cons.IH[OF this] Cons.prems(2)
    have "concat (map split lines') @ cur' = concat (map split ?lines) @ [w] @ words"
      and "\<forall>w \<in> set cur'. is_word w"
      by simp_all
    moreover have "concat (map split ?lines) = concat (map split lines) @ cur"
      using Cons.prems(2) by (simp add: split_join)
    ultimately show ?thesis by simp
  qed
qed

lemma wrap_text_words:
  "concat (map split (wrap_text string_width max_width text)) = split text"
proof -
  obtain lines cur where w: "wrap_words string_width max_width [] [] (split text) = (lines, cur)"
    by (cases "wrap_words string_width max_width [] [] (split text)") auto
  from wrap_words_words[OF w] split_words[of "text"]
  have "concat (map split lines) @ cur = split text" and "\<forall>w \<in> set cur. is_word w"
    by simp_all
  then show ?thesis
    using w by (auto simp: wrap_text_def split_join)
qed

lemma oversized_word_is_line:
  assumes mono: "\<And>ws w. w \<in> set ws \<Longrightarrow> string_width w \<le> string_width (join ws)"
    and w: "w \<in> set (split text)" and over: "max_width < string_width w"
  shows "w \<in> set (wrap_text string_width max_width text)"
proof -
  from w have "w \<in> set (concat (map split (wrap_text string_width max_width text)))"
    by (simp only: wrap_text_words)
  then obtain line where line: "line \<in> set (wrap_text string_width max_width text)"
    and "w \<in> set (split line)"
    by auto
  from oversized_word_alone[OF mono line this(2) over] line show ?thesis
    by simp
qed

lemma length_join_ge: "w \<in> set ws \<Longrightarrow> length w \<le> length (join ws)"
  by (induction ws rule: join.induct) auto

text \<open>
  Under a measurement function that is not monotone a word wider than \<open>max_width\<close> can
  share a line: with \<open>lopsided_width\<close> and a width of 50 the text \<^verbatim>\<open>a bb\<close> is wrapped
  into the one line \<^verbatim>\<open>a bb\<close>, which measures 10, although \<^verbatim>\<open>bb\<close> measures 100.
\<close>

theorem oversized_word_shares_line:
  "''bb'' \<in> set (split ''a bb'') \<and>
   50 < lopsided_width ''bb'' \<and>
   wrap_text lopsided_width 50 ''a bb'' = [''a bb''] \<and>
   ''bb'' \<notin> set (wrap_text lopsided_width 50 ''a bb'')"
  by (simp add: wrap_text_def split_def is_space_def lopsided_width_def)

text \<open>
  Claim C5, as amended. For every text, every width and every measurement function,
  every line that the wrapper returns has a measured width of at most \<open>max_width\<close>,
  unless the line is a single word of the text (whole, on a line of its own) whose own
  measured width is more than \<open>max_width\<close>. When the measurement function gives every
  line at least the width of each of its words, every word of the text that is wider than
  \<open>max_width\<close> is a line of the output, and no other line holds it.
\<close>

theorem wrap_lines_fit_or_single_word:
  "(\<forall>line \<in> set (wrap_text string_width max_width text).
      string_width line \<le> max_width \<or>
      (line \<in> set (split text) \<and> split line = [line] \<and> max_width < string_width line)) \<and>
   ((\<forall>ws w. w \<in> set ws \<longrightarrow> string_width w \<le> string_width (join ws)) \<longrightarrow>
      (\<forall>w \<in> set (split text). max_width < string_width w \<longrightarrow>
         w \<in> set (wrap_text string_width max_width text) \<and>
         (\<forall>line \<in> set (wrap_text string_width max_width text).
            w \<in> set (split line) \<longrightarrow> line = w)))"
proof (intro conjI impI ballI)
  fix line
  assume "line \<in> set (wrap_text string_width max_width text)"
  with wrap_text_line_ok[of string_width max_width "text"] split_words[of "text"]
  show "string_width line \<le> max_width \<or>
      (line \<in> set (split text) \<and> split line = [line] \<and> max_width < string_width line)"
    by (auto simp: line_ok_def split_word)
next
  fix w
  assume mono: "\<forall>ws w. w \<in> set ws \<longrightarrow> string_width w \<le> string_width (join ws)"
    and w: "w \<in> set (split text)" and over: "max_width < string_width w"
  from mono have m: "\<And>ws w. w \<in> set ws \<Longrightarrow> string_width w \<le> string_width (join ws)"
    by blast
  from oversized_word_is_line[OF m w over]
  show "w \<in> set (wrap_text string_width max_width text)" .
  fix line
  assume "line \<in> set (wrap_text string_width max_width text)" and "w \<in> set (split line)"
  from oversized_word_alone[OF m this over] show "line = w" .
qed

lemma wrap_eval:
  "wrap_text (\<lambda>s. 10 * real (length s)) 50 ''ab abcdefghijkl  cd'' =
     [''ab'', ''abcdefghijkl'', ''cd'']"
  "split ''ab abcdefghijkl  cd'' = [''ab'', ''abcdefghijkl'', ''cd'']"
  by (simp_all add: wrap_text_def split_def is_space_def)

theorem wrap_lines_fit_or_single_word_witness:
  "wrap_text (\<lambda>s. 10 * real (length s)) 50 ''ab abcdefghijkl  cd'' =
     [''ab'', ''abcdefghijkl'', ''cd''] \<and>
   10 * real (length ''ab'') \<le> 50 \<and>
   ''abcdefghijkl'' \<in> set (split ''ab abcdefghijkl  cd'') \<and>
   split ''abcdefghijkl'' = [''abcdefghijkl''] \<and>
   50 < 10 * real (length ''abcdefghijkl'') \<and>
   10 * real (length ''cd'') \<le> 50 \<and>
   ''abcdefghijkl'' \<in> set (wrap_text (\<lambda>s. 10 * real (length s)) 50 ''ab abcdefghijkl  cd'')"
proof -
  let ?W = "\<lambda>s. 10 * real (length s)"
  let ?T = "''ab abcdefghijkl  cd''"
  have mono: "\<forall>ws w. w \<in> set ws \<longrightarrow> ?W w \<le> ?W (join ws)"
    by (simp add: length_join_ge)
  note wrap_lines_fit_or_single_word[of ?W 50 ?T]
  then have fit: "\<forall>line \<in> set (wrap_text ?W 50 ?T).
      ?W line \<le> 50 \<or> (line \<in> set (split ?T) \<and> split line = [line] \<and> 50 < ?W line)"
    and alone: "\<forall>w \<in> set (split ?T). 50 < ?W w \<longrightarrow> w \<in> set (wrap_text ?W 50 ?T) \<and>
         (\<forall>line \<in> set (wrap_text ?W 50 ?T). w \<in> set (split line) \<longrightarrow> line = w)"
    using mono by blast+
  from fit have "?W ''ab'' \<le> 50" and "''abcdefghijkl'' \<in> set (split ?T)"
    and "split ''abcdefghijkl'' = [''abcdefghijkl'']" and "50 < ?W ''abcdefghijkl''"
    and "?W ''cd'' \<le> 50"
    by (simp_all add: wrap_eval(1))
  moreover from alone have "''abcdefghijkl'' \<in> set (wrap_text ?W 50 ?T)"
    by (simp add: wrap_eval(2))
  ultimately show ?thesis
    by (simp add: wrap_eval(1))
qed

text \<open>
  Claim C6. The words of the lines that the wrapper returns, line after line, are the
  whitespace-separated words of the text, in order; the wrapper returns no line exactly
  when the text has no word.
\<close>

theorem wrap_preserves_words:
  "concat (map split (wrap_text string_width max_width text)) = split text \<and>
   (wrap_text string_width max_width text = [] \<longleftrightarrow> split text = [])"
proof -
  obtain lines cur where w: "wrap_words string_width max_width [] [] (split text) = (lines, cur)"
    by (cases "wrap_words string_width max_width [] [] (split text)") auto
  from wrap_words_words[OF w] split_words[of "text"]
  have "concat (map split lines) @ cur = split text" and "\<forall>w \<in> set cur. is_word w"
    by simp_all
  then have eq: "concat (map split (wrap_text string_width max_width text)) = split text"
    using w by (auto simp: wrap_text_def split_join)
  moreover have "wrap_text string_width max_width text = []" if "split text = []"
    using that by (simp add: wrap_text_def)
  ultimately show ?thesis
    by auto
qed

subsection \<open>Inline verse segmenter\<close>

lemma match_marker_Some:
  assumes "match_marker s = Some (digits, after)"
  shows "s = CHR ''['' # digits @ CHR '']'' # after" and "digits \<noteq> []"
    and "\<forall>c \<in> set digits. is_digit c"
proof -
  from assms obtain t where s: "s = CHR ''['' # t" and d: "digits = takeWhile is_digit t"
    and ne: "digits \<noteq> []" and r: "dropWhile is_digit t \<noteq> []"
    and h: "hd (dropWhile is_digit t) = CHR '']''" and a: "after = tl (dropWhile is_digit t)"
    by (auto simp: match_marker_def split: list.splits if_splits)
  from r h a have "dropWhile is_digit t = CHR '']'' # after"
    by (cases "dropWhile is_digit t") auto
  with d have "t = digits @ CHR '']'' # after"
    by (metis takeWhile_dropWhile_id)
  with s show "s = CHR ''['' # digits @ CHR '']'' # after"
    by simp
  from ne show "digits \<noteq> []" .
  from d show "\<forall>c \<in> set digits. is_digit c"
    by (auto dest: set_takeWhileD)
qed

lemma not_digit_bracket: "\<not> is_digit CHR '']''"
  by (simp add: is_digit_def)

lemma match_marker_intro:
  assumes "digits \<noteq> []" and "\<forall>c \<in> set digits. is_digit c"
  shows "match_marker (CHR ''['' # digits @ CHR '']'' # after) = Some (digits, after)"
proof -
  from assms(2) have tw: "takeWhile is_digit (digits @ CHR '']'' # after) = digits"
    and dw: "dropWhile is_digit (digits @ CHR '']'' # after) = CHR '']'' # after"
    by (simp_all add: takeWhile_append2 dropWhile_append2 not_digit_bracket)
  show ?thesis
    unfolding match_marker_def list.case tw dw using assms(1) by simp
qed

lemma match_marker_append:
  assumes "match_marker q = Some (digits, after)"
  shows "match_marker (q @ r) = Some (digits, after @ r)"
  using match_marker_Some[OF assms] match_marker_intro[of digits "after @ r"]
  by simp

lemma search_marker_iff:
  "search_marker s \<longleftrightarrow> (\<exists>p q. s = p @ q \<and> match_marker q \<noteq> None)"
proof (induction s)
  case Nil
  then show ?case by (simp add: match_marker_def)
next
  case (Cons c s)
  show ?case
  proof
    assume "search_marker (c # s)"
    then consider "match_marker (c # s) \<noteq> None" | "search_marker s"
      by auto
    then show "\<exists>p q. c # s = p @ q \<and> match_marker q \<noteq> None"
    proof cases
      case 1
      then have "c # s = [] @ (c # s) \<and> match_marker (c # s) \<noteq> None"
        by simp
      then show ?thesis by blast
    next
      case 2
      with Cons.IH obtain p q where "s = p @ q" and "match_marker q \<noteq> None"
        by blast
      then have "c # s = (c # p) @ q \<and> match_marker q \<noteq> None"
        by simp
      then show ?thesis by blast
    qed
  next
    assume "\<exists>p q. c # s = p @ q \<and> match_marker q \<noteq> None"
    then obtain p q where pq: "c # s = p @ q" and m: "match_marker q \<noteq> None"
      by blast
    show "search_marker (c # s)"
    proof (cases p)
      case Nil
      with pq have "q = c # s" by simp
      with m show ?thesis by simp
    next
      case (Cons c' p')
      with pq have "s = p' @ q" by simp
      with m Cons.IH have "search_marker s" by blast
      then show ?thesis by simp
    qed
  qed
qed

lemma scan_segments_source:
  "concat (map segment_source (scan_segments pending rest)) = pending @ rest"
proof (induction pending rest rule: scan_segments.induct)
  case (1 pending)
  then show ?case by (simp add: text_segment_def)
next
  case (2 pending c cs)
  show ?case
  proof (cases "match_marker (c # cs)")
    case None
    with 2 show ?thesis by simp
  next
    case (Some m)
    obtain digits after where m: "m = (digits, after)"
      by (cases m)
    from "2.IH"(2)[OF Some m[symmetric]] match_marker_Some(1)[OF Some[unfolded m]] Some m
    show ?thesis
      by (simp add: text_segment_def)
  qed
qed


lemma scan_segments_text:
  assumes "TextSeg s \<in> set (scan_segments pending rest)"
    and "\<forall>p q. pending = p @ q \<and> q \<noteq> [] \<longrightarrow> match_marker (q @ rest) = None"
  shows "s \<noteq> [] \<and> \<not> search_marker s"
  using assms
proof (induction pending rest rule: scan_segments.induct)
  case (1 pending)
  then have s: "s = pending" and ne: "pending \<noteq> []"
    by (auto simp: text_segment_def split: if_splits)
  have "\<not> search_marker pending"
  proof
    assume "search_marker pending"
    then obtain p q where pq: "pending = p @ q" and m: "match_marker q \<noteq> None"
      by (auto simp: search_marker_iff)
    then have "q \<noteq> []"
      by (auto simp: match_marker_def)
    with pq "1.prems"(2) have "match_marker q = None"
      by simp
    with m show False by simp
  qed
  with s ne show ?case by simp
next
  case (2 pending c cs)
  show ?case
  proof (cases "match_marker (c # cs)")
    case None
    with "2.prems"(1) have in_rec: "TextSeg s \<in> set (scan_segments (pending @ [c]) cs)"
      by simp
    have "\<forall>p q. pending @ [c] = p @ q \<and> q \<noteq> [] \<longrightarrow> match_marker (q @ cs) = None"
    proof (intro allI impI)
      fix p q
      assume a: "pending @ [c] = p @ q \<and> q \<noteq> []"
      then obtain q' where q: "q = q' @ [c]" and p: "pending = p @ q'"
        by (cases q rule: rev_cases) auto
      show "match_marker (q @ cs) = None"
      proof (cases "q' = []")
        case True
        with q None show ?thesis by simp
      next
        case False
        with p "2.prems"(2) have "match_marker (q' @ c # cs) = None"
          by blast
        with q show ?thesis by simp
      qed
    qed
    from "2.IH"(1)[OF None in_rec this] show ?thesis .
  next
    case (Some m)
    obtain digits after where m: "m = (digits, after)"
      by (cases m)
    from "2.prems"(1) Some m consider "TextSeg s \<in> set (text_segment pending)"
      | "TextSeg s \<in> set (scan_segments [] after)"
      by auto
    then show ?thesis
    proof cases
      case 1
      then have s: "s = pending" and ne: "pending \<noteq> []"
        by (auto simp: text_segment_def split: if_splits)
      have "\<not> search_marker pending"
      proof
        assume "search_marker pending"
        then obtain p q where pq: "pending = p @ q" and mq: "match_marker q \<noteq> None"
          by (auto simp: search_marker_iff)
        then have "q \<noteq> []"
          by (auto simp: match_marker_def)
        with pq "2.prems"(2) have none: "match_marker (q @ c # cs) = None"
          by blast
        from mq obtain d a where "match_marker q = Some (d, a)"
          by auto
        from match_marker_append[OF this, of "c # cs"] none show False
          by simp
      qed
      with s ne show ?thesis by simp
    next
      case 2
      from "2.IH"(2)[OF Some m[symmetric] 2] show ?thesis
        by simp
    qed
  qed
qed

lemma scan_segments_verse:
  "VerseNumber digits \<in> set (scan_segments pending rest) \<Longrightarrow>
     digits \<noteq> [] \<and> (\<forall>c \<in> set digits. is_digit c)"
proof (induction pending rest rule: scan_segments.induct)
  case (1 pending)
  then show ?case by (auto simp: text_segment_def split: if_splits)
next
  case (2 pending c cs)
  show ?case
  proof (cases "match_marker (c # cs)")
    case None
    with 2 show ?thesis by simp
  next
    case (Some m)
    obtain ds after where m: "m = (ds, after)"
      by (cases m)
    from "2.prems" Some m consider "digits = ds"
      | "VerseNumber digits \<in> set (scan_segments [] after)"
      by (auto simp: text_segment_def split: if_splits)
    then show ?thesis
    proof cases
      case 1
      with match_marker_Some(2,3)[OF Some[unfolded m]] show ?thesis
        by simp
    next
      case 2
      from "2.IH"(2)[OF Some m[symmetric] 2] show ?thesis .
    qed
  qed
qed

lemma texts_separated_verse: "texts_separated (VerseNumber d # segs) = texts_separated segs"
  by (cases segs) simp_all

lemma texts_separated_text_segment:
  "texts_separated (text_segment s @ VerseNumber d # segs) = texts_separated segs"
  by (simp add: text_segment_def texts_separated_verse)

lemma scan_segments_separated: "texts_separated (scan_segments pending rest)"
proof (induction pending rest rule: scan_segments.induct)
  case (1 pending)
  then show ?case by (simp add: text_segment_def)
next
  case (2 pending c cs)
  show ?case
  proof (cases "match_marker (c # cs)")
    case None
    with 2 show ?thesis by simp
  next
    case (Some m)
    obtain ds after where m: "m = (ds, after)"
      by (cases m)
    from "2.IH"(2)[OF Some m[symmetric]] Some m show ?thesis
      by (simp add: texts_separated_text_segment)
  qed
qed

lemma line_segments_finish:
  "line_segments line = finish_segments line (segment_loop line [] 0 (finditer line))"
  by (simp add: line_segments_def finish_segments_def)

lemma segment_loop_scan:
  "length pre = pos \<Longrightarrow> last_end \<le> pos \<Longrightarrow> line = pre @ rest \<Longrightarrow>
   finish_segments line (segment_loop line segs last_end (finditer_from pos rest)) =
     segs @ scan_segments (drop last_end pre) rest"
proof (induction pos rest arbitrary: pre segs last_end rule: finditer_from.induct)
  case (1 pos)
  then show ?case
    by (auto simp: finish_segments_def text_segment_def)
next
  case (2 pos c cs)
  show ?case
  proof (cases "match_marker (c # cs)")
    case None
    from "2.prems" have "length (pre @ [c]) = pos + 1" and "last_end \<le> pos + 1"
      and "line = (pre @ [c]) @ cs"
      by simp_all
    from "2.IH"(1)[OF None this] None "2.prems"(1,2) show ?thesis
      by simp
  next
    case (Some m)
    obtain digits after where m: "m = (digits, after)"
      by (cases m)
    let ?e = "pos + length digits + 2"
    let ?pre = "pre @ CHR ''['' # digits @ [CHR '']'']"
    let ?segs = "(if pos > last_end then segs @ [TextSeg (slice line last_end pos)] else segs)
                   @ [VerseNumber digits]"
    from match_marker_Some(1)[OF Some[unfolded m]]
    have cs: "c # cs = CHR ''['' # digits @ CHR '']'' # after" .
    with "2.prems" have "length ?pre = ?e" and "?e \<le> ?e" and line: "line = ?pre @ after"
      by simp_all
    from "2.IH"(2)[OF Some m[symmetric] this, of ?segs]
    have "finish_segments line (segment_loop line ?segs ?e (finditer_from ?e after)) =
        ?segs @ scan_segments [] after"
      using \<open>length ?pre = ?e\<close> by simp
    moreover have "?segs = segs @ text_segment (drop last_end pre) @ [VerseNumber digits]"
      using "2.prems" by (auto simp: slice_def text_segment_def)
    moreover have "finish_segments line (segment_loop line segs last_end (finditer_from pos (c # cs)))
        = finish_segments line (segment_loop line ?segs ?e (finditer_from ?e after))"
      using Some m by simp
    moreover have "scan_segments (drop last_end pre) (c # cs) =
        text_segment (drop last_end pre) @ VerseNumber digits # scan_segments [] after"
      using Some m by simp
    ultimately show ?thesis
      by simp
  qed
qed

lemma line_segments_scan: "line_segments line = scan_segments [] line"
  using segment_loop_scan[of "[]" 0 0 line line "[]"]
  by (simp add: line_segments_finish finditer_def)

text \<open>
  Claim C7. The segments of a line give the line back: text segments as they are, a verse
  number with its digits between \<^verbatim>\<open>[\<close> and \<^verbatim>\<open>]\<close>. The text segments are the
  non-empty pieces of the line before, between and after the matches of the marker found
  from left to right: no text segment is empty, none holds a marker, no two of them are
  neighbours, and every verse number is a non-empty string of digits.
\<close>

theorem segments_round_trip:
  "concat (map segment_source (line_segments line)) = line \<and>
   texts_separated (line_segments line) \<and>
   (\<forall>seg \<in> set (line_segments line).
      case seg of
        TextSeg s \<Rightarrow> s \<noteq> [] \<and> \<not> search_marker s
      | VerseNumber digits \<Rightarrow> digits \<noteq> [] \<and> (\<forall>c \<in> set digits. is_digit c))"
proof (intro conjI ballI)
  show "concat (map segment_source (line_segments line)) = line"
    by (simp add: line_segments_scan scan_segments_source)
  show "texts_separated (line_segments line)"
    by (simp add: line_segments_scan scan_segments_separated)
next
  fix seg
  assume "seg \<in> set (line_segments line)"
  then have seg: "seg \<in> set (scan_segments [] line)"
    by (simp add: line_segments_scan)
  show "case seg of
        TextSeg s \<Rightarrow> s \<noteq> [] \<and> \<not> search_marker s
      | VerseNumber digits \<Rightarrow> digits \<noteq> [] \<and> (\<forall>c \<in> set digits. is_digit c)"
  proof (cases seg)
    case (TextSeg s)
    with seg scan_segments_text[of s "[]" line] show ?thesis
      by simp
  next
    case (VerseNumber digits)
    with seg scan_segments_verse[of digits "[]" line] show ?thesis
      by simp
  qed
qed

lemma segments_eval:
  "line_segments ''[16] For God [x] so [2]'' =
     [VerseNumber ''16'', TextSeg '' For God [x] so '', VerseNumber ''2'']"
  by (simp add: line_segments_def finditer_def match_marker_def is_digit_def slice_def)

theorem segments_round_trip_witness:
  "line_segments ''[16] For God [x] so [2]'' =
     [VerseNumber ''16'', TextSeg '' For God [x] so '', VerseNumber ''2''] \<and>
   ''[16]'' @ '' For God [x] so '' @ ''[2]'' = ''[16] For God [x] so [2]'' \<and>
   '' For God [x] so '' \<noteq> [] \<and> \<not> search_marker '' For God [x] so ''"
  using segments_round_trip[of "''[16] For God [x] so [2]''"]
  by (simp add: segments_eval)

subsection \<open>Element parser\<close>

lemma flush_body_poetry: "flush_body True current_body = map PoetryLine current_body"
  by (simp add: flush_body_def)

lemma parse_lines_poetry:
  "parse_lines True elements cur lines = (elements', cur') \<Longrightarrow>
   elements' @ map PoetryLine cur' =
     elements @ map PoetryLine cur @ map poetry_element (filter non_blank lines)"
proof (induction lines arbitrary: elements cur)
  case Nil
  then show ?case by simp
next
  case (Cons line lines)
  show ?case
  proof (cases "strip line = []")
    case True
    with Cons.prems have "parse_lines True elements cur lines = (elements', cur')"
      by simp
    from Cons.IH[OF this] True show ?thesis
      by (simp add: non_blank_def)
  next
    case False
    show ?thesis
    proof (cases "is_section_heading line")
      case True
      with False Cons.prems have
        "parse_lines True (elements @ flush_body True cur @ [HeadingElem (strip line)]) [] lines
           = (elements', cur')"
        by simp
      from Cons.IH[OF this] True False show ?thesis
        by (simp add: non_blank_def poetry_element_def flush_body_poetry)
    next
      case nh: False
      with False Cons.prems have "parse_lines True elements (cur @ [line]) lines = (elements', cur')"
        by simp
      from Cons.IH[OF this] nh False show ?thesis
        by (simp add: non_blank_def poetry_element_def)
    qed
  qed
qed

lemma prose_runs_from: "prose_runs lines = prose_from [] lines"
proof (cases lines)
  case Nil
  then show ?thesis by (simp add: prose_from_def flush_body_def)
next
  case (Cons line rest)
  then show ?thesis
    by (simp add: prose_from_def flush_body_def)
qed

lemma parse_lines_prose:
  "parse_lines False elements cur lines = (elements', cur') \<Longrightarrow>
   elements' @ flush_body False cur' = elements @ prose_from cur (filter non_blank lines)"
proof (induction lines arbitrary: elements cur)
  case Nil
  then show ?case by (auto simp: prose_from_def)
next
  case (Cons line lines)
  show ?case
  proof (cases "strip line = []")
    case True
    with Cons.prems have "parse_lines False elements cur lines = (elements', cur')"
      by simp
    from Cons.IH[OF this] True show ?thesis
      by (simp add: non_blank_def)
  next
    case False
    show ?thesis
    proof (cases "is_section_heading line")
      case True
      with False Cons.prems have
        "parse_lines False (elements @ flush_body False cur @ [HeadingElem (strip line)]) [] lines
           = (elements', cur')"
        by simp
      from Cons.IH[OF this] have
        "elements' @ flush_body False cur' =
           elements @ flush_body False cur @ HeadingElem (strip line)
             # prose_from [] (filter non_blank lines)"
        by simp
      moreover have "prose_from cur (filter non_blank (line # lines)) =
          flush_body False cur @ HeadingElem (strip line) # prose_runs (filter non_blank lines)"
        using True False by (simp add: prose_from_def non_blank_def)
      ultimately show ?thesis
        by (simp add: prose_runs_from)
    next
      case nh: False
      with False Cons.prems have
        "parse_lines False elements (cur @ [strip line]) lines = (elements', cur')"
        by simp
      from Cons.IH[OF this] have
        "elements' @ flush_body False cur' =
           elements @ prose_from (cur @ [strip line]) (filter non_blank lines)"
        by simp
      moreover have "prose_from cur (filter non_blank (line # lines)) =
          prose_from (cur @ [strip line]) (filter non_blank lines)"
        using nh False by (simp add: prose_from_def non_blank_def)
      ultimately show ?thesis by simp
    qed
  qed
qed

lemma parse_poetry:
  "is_poetry text \<Longrightarrow>
   parse_passage_elements text = map poetry_element (filter non_blank (split_lines text))"
proof -
  assume p: "is_poetry text"
  obtain es cur where pl: "parse_lines True [] [] (split_lines text) = (es, cur)"
    by (cases "parse_lines True [] [] (split_lines text)") auto
  from parse_lines_poetry[OF pl] p pl show ?thesis
    by (simp add: parse_passage_elements_def flush_body_poetry)
qed

lemma parse_prose:
  "\<not> is_poetry text \<Longrightarrow>
   parse_passage_elements text = prose_runs (filter non_blank (split_lines text))"
proof -
  assume p: "\<not> is_poetry text"
  obtain es cur where pl: "parse_lines False [] [] (split_lines text) = (es, cur)"
    by (cases "parse_lines False [] [] (split_lines text)") auto
  from parse_lines_prose[OF pl] p pl show ?thesis
    by (simp add: parse_passage_elements_def prose_runs_from)
qed

text \<open>
  Claim C8. Whether a passage is poetry is decided once, from the whole text: it is poetry
  when some line starts with a space and has content. In a poetry passage every non-blank
  line that is not a heading becomes one \<open>PoetryLine\<close> holding the raw line, also a line
  without a leading space. In any other passage each run of consecutive lines that are
  not headings (blank lines skipped) becomes one \<open>BodyElem\<close>: its lines stripped and
  joined with single spaces.
\<close>

theorem poetry_decision_is_global:
  "(is_poetry text \<longleftrightarrow>
      (\<exists>line \<in> set (split_lines text). line \<noteq> [] \<and> hd line = CHR '' '' \<and> strip line \<noteq> [])) \<and>
   (is_poetry text \<longrightarrow>
      parse_passage_elements text =
        map (\<lambda>line. if is_section_heading line then HeadingElem (strip line)
                    else PoetryLine line)
          (filter (\<lambda>line. strip line \<noteq> []) (split_lines text))) \<and>
   (\<not> is_poetry text \<longrightarrow>
      parse_passage_elements text =
        prose_runs (filter (\<lambda>line. strip line \<noteq> []) (split_lines text)))"
proof -
  have "non_blank = (\<lambda>line. strip line \<noteq> [])" and "poetry_element =
      (\<lambda>line. if is_section_heading line then HeadingElem (strip line) else PoetryLine line)"
    by (auto simp: non_blank_def poetry_element_def)
  with parse_poetry[of "text"] parse_prose[of "text"] show ?thesis
    by (simp add: is_poetry_def list_ex_iff)
qed

lemma parse_eval_poetry:
  "is_poetry ''[1] a\<newline>  [2] b''"
  "parse_passage_elements ''[1] a\<newline>  [2] b'' = [PoetryLine ''[1] a'', PoetryLine ''  [2] b'']"
  by (simp_all add: parse_passage_elements_def is_poetry_def split_lines_def
        strip_def is_space_def is_section_heading_def match_marker_def is_digit_def
        flush_body_def)

lemma parse_eval_prose:
  "\<not> is_poetry ''T\<newline>[1] a\<newline>[2] b''"
  "parse_passage_elements ''T\<newline>[1] a\<newline>[2] b'' = [HeadingElem ''T'', BodyElem ''[1] a [2] b'']"
  by (simp_all add: parse_passage_elements_def is_poetry_def split_lines_def
        strip_def is_space_def is_section_heading_def match_marker_def is_digit_def
        flush_body_def)

theorem poetry_decision_is_global_witness:
  "is_poetry ''[1] a\<newline>  [2] b'' \<and>
   parse_passage_elements ''[1] a\<newline>  [2] b'' =
     map (\<lambda>line. if is_section_heading line then HeadingElem (strip line)
                 else PoetryLine line)
       (filter (\<lambda>line. strip line \<noteq> []) (split_lines ''[1] a\<newline>  [2] b'')) \<and>
   parse_passage_elements ''[1] a\<newline>  [2] b'' = [PoetryLine ''[1] a'', PoetryLine ''  [2] b''] \<and>
   \<not> is_poetry ''T\<newline>[1] a\<newline>[2] b'' \<and>
   parse_passage_elements ''T\<newline>[1] a\<newline>[2] b'' =
     prose_runs (filter (\<lambda>line. strip line \<noteq> []) (split_lines ''T\<newline>[1] a\<newline>[2] b'')) \<and>
   parse_passage_elements ''T\<newline>[1] a\<newline>[2] b'' = [HeadingElem ''T'', BodyElem ''[1] a [2] b'']"
  using poetry_decision_is_global[of "''[1] a\<newline>  [2] b''"]
    poetry_decision_is_global[of "''T\<newline>[1] a\<newline>[2] b''"]
    parse_eval_poetry parse_eval_prose
  by simp

lemma non_space_append: "non_space (a @ b) = non_space a @ non_space b"
  by (simp add: non_space_def)

lemma non_space_concat: "non_space (concat xs) = concat (map non_space xs)"
  by (induction xs) (simp_all add: non_space_append, simp add: non_space_def)

lemma non_space_dropWhile: "non_space (dropWhile is_space s) = non_space s"
  by (induction s) (simp_all add: non_space_def)

lemma non_space_rev: "non_space (rev s) = rev (non_space s)"
  by (simp add: non_space_def rev_filter)

lemma non_space_strip: "non_space (strip s) = non_space s"
  by (simp add: strip_def non_space_rev non_space_dropWhile)

lemma non_space_blank: "strip s = [] \<Longrightarrow> non_space s = []"
  using non_space_strip[of s] by (simp add: non_space_def)

lemma non_space_join: "non_space (join xs) = concat (map non_space xs)"
  by (induction xs rule: join.induct) (simp_all add: non_space_append, simp_all add: non_space_def is_space_def)

lemma non_space_split_lines_from:
  "concat (map non_space (split_lines_from piece s)) = non_space piece @ non_space s"
proof (induction s arbitrary: piece)
  case Nil
  then show ?case by (simp add: non_space_def)
next
  case (Cons c s)
  show ?case
  proof (cases "c = CHR 0x0A")
    case True
    then have "non_space (c # s) = non_space s"
      by (simp add: non_space_def is_space_def)
    with True Cons.IH[of "[]"] show ?thesis
      by (simp add: non_space_def)
  next
    case False
    with Cons.IH[of "piece @ [c]"] show ?thesis
      by (simp add: non_space_def)
  qed
qed

lemma non_space_split_lines: "concat (map non_space (split_lines s)) = non_space s"
  by (simp add: split_lines_def non_space_split_lines_from non_space_def)

lemma non_space_non_blank:
  "concat (map non_space (filter non_blank lines)) = concat (map non_space lines)"
  by (induction lines) (auto simp: non_blank_def non_space_blank)

lemma strip_trimmed: "trimmed s \<Longrightarrow> strip s = s"
proof -
  assume t: "trimmed s"
  then have "dropWhile is_space s = s"
    by (cases s) (auto simp: trimmed_def)
  moreover from t have "dropWhile is_space (rev s) = rev s"
    by (cases "rev s") (auto simp: trimmed_def last_rev[symmetric] simp del: last_rev)
  ultimately show ?thesis
    by (simp add: strip_def)
qed

lemma trimmed_strip: "strip s \<noteq> [] \<Longrightarrow> trimmed (strip s)"
proof -
  let ?t = "dropWhile is_space s"
  let ?u = "dropWhile is_space (rev ?t)"
  assume "strip s \<noteq> []"
  then have u: "?u \<noteq> []"
    by (simp add: strip_def)
  have t: "?t \<noteq> []"
  proof
    assume a: "?t = []"
    have "?u = []"
      unfolding a by simp
    with u show False ..
  qed
  from u have "\<not> is_space (hd ?u)"
    by (rule hd_dropWhile)
  moreover have "rev ?t = takeWhile is_space (rev ?t) @ ?u"
    by simp
  with u have "last (rev ?t) = last ?u"
    by (metis last_appendR)
  with t have "last ?u = hd ?t"
    by (simp add: last_rev)
  moreover from t have "\<not> is_space (hd ?t)"
    by (rule hd_dropWhile)
  ultimately show ?thesis
    using u by (simp add: trimmed_def strip_def hd_rev last_rev)
qed

lemma strip_strip: "strip (strip s) = strip s"
proof (cases "strip s = []")
  case True
  have "strip [] = []"
    by (simp add: strip_def)
  with True show ?thesis
    by simp
next
  case False
  then show ?thesis by (simp add: trimmed_strip strip_trimmed)
qed

lemma trimmed_join: "xs \<noteq> [] \<Longrightarrow> \<forall>x \<in> set xs. trimmed x \<Longrightarrow> trimmed (join xs)"
proof (induction xs rule: join.induct)
  case 1
  then show ?case by simp
next
  case (2 x)
  then show ?case by simp
next
  case (3 x y ys)
  then have "trimmed (join (y # ys))" and "trimmed x"
    by simp_all
  then show ?case
    by (simp add: trimmed_def)
qed

lemma join_Cons: "join (x # xs) = (if xs = [] then x else x @ CHR '' '' # join xs)"
  by (cases xs) simp_all

lemma join_append: "a \<noteq> [] \<Longrightarrow> b \<noteq> [] \<Longrightarrow> join (a @ b) = join a @ CHR '' '' # join b"
  by (induction a rule: join.induct) (simp_all add: join_Cons)

lemma join_join: "a \<noteq> [] \<Longrightarrow> join (join a # b) = join (a @ b)"
  by (cases "b = []") (simp_all add: join_Cons join_append)

lemma prose_runs_join:
  "\<forall>l \<in> set lines. non_blank l \<Longrightarrow>
   join (map (\<lambda>e. strip (content e)) (prose_runs lines)) = join (map strip lines) \<and>
   (prose_runs lines = [] \<longleftrightarrow> lines = [])"
proof (induction lines rule: prose_runs.induct)
  case 1
  then show ?case by simp
next
  case (2 line lines)
  let ?nh = "\<lambda>l. \<not> is_section_heading l"
  show ?case
  proof (cases "is_section_heading line")
    case True
    with 2 have "join (map (\<lambda>e. strip (content e)) (prose_runs lines)) = join (map strip lines)"
      and "prose_runs lines = [] \<longleftrightarrow> lines = []"
      by simp_all
    with True show ?thesis
      by (simp add: join_Cons strip_strip)
  next
    case False
    let ?run = "takeWhile ?nh (line # lines)"
    let ?rest = "dropWhile ?nh lines"
    from False have run: "?run = line # takeWhile ?nh lines"
      by simp
    have "\<forall>l \<in> set ?rest. non_blank l"
      using "2.prems" by (auto dest: set_dropWhileD)
    with "2.IH"(2)[OF False] have
      ih: "join (map (\<lambda>e. strip (content e)) (prose_runs ?rest)) = join (map strip ?rest)"
      and e: "prose_runs ?rest = [] \<longleftrightarrow> ?rest = []"
      by simp_all
    have "\<forall>x \<in> set (map strip ?run). trimmed x"
      using "2.prems" by (auto simp: non_blank_def trimmed_strip dest: set_takeWhileD)
    with run have "trimmed (join (map strip ?run))"
      by (intro trimmed_join) simp_all
    then have "strip (join (map strip ?run)) = join (map strip ?run)"
      by (rule strip_trimmed)
    then have "join (map (\<lambda>e. strip (content e)) (prose_runs (line # lines))) =
        join (join (map strip ?run) # map (\<lambda>e. strip (content e)) (prose_runs ?rest))"
      using False by simp
    also have "\<dots> = join (join (map strip ?run) # map strip ?rest)"
      using ih e by (simp add: join_Cons)
    also have "\<dots> = join (map strip ?run @ map strip ?rest)"
      using run by (intro join_join) simp
    also have "map strip ?run @ map strip ?rest = map strip (line # lines)"
      using False by (simp flip: map_append)
    finally show ?thesis
      using False by simp
  qed
qed

lemma parse_join:
  "join (map (\<lambda>e. strip (content e)) (parse_passage_elements text)) =
     join (map strip (filter non_blank (split_lines text)))"
proof (cases "is_poetry text")
  case True
  have "map (\<lambda>e. strip (content e)) (map poetry_element lines) = map strip lines" for lines
    by (induction lines) (simp_all add: poetry_element_def strip_strip)
  then show ?thesis
    unfolding parse_poetry[OF True] by (rule arg_cong)
next
  case False
  from parse_prose[OF False] prose_runs_join[of "filter non_blank (split_lines text)"]
  show ?thesis
    by simp
qed

lemma contents_poetry:
  "is_poetry text \<Longrightarrow>
   map content (parse_passage_elements text) =
     map (\<lambda>line. if is_section_heading line then strip line else line)
       (filter non_blank (split_lines text))"
proof -
  assume p: "is_poetry text"
  have "map content (map poetry_element lines) =
      map (\<lambda>line. if is_section_heading line then strip line else line) lines" for lines
    by (induction lines) (simp_all add: poetry_element_def)
  then show ?thesis
    unfolding parse_poetry[OF p] .
qed

text \<open>
  Claim C9. The parser drops no content and keeps the order: the characters of the element
  contents that are not whitespace are those of the passage, in the same order. What
  changes is whitespace only: blank lines go, and the contents, stripped and joined with
  single spaces, are the non-blank lines of the passage, stripped and joined with single
  spaces. In a poetry passage the content of every element that is not a heading is a
  line of the passage as it stands, leading and trailing whitespace kept; a heading is
  its line stripped. In any other passage the contents are those of \<open>prose_runs\<close>:
  a heading is its line stripped, a body the stripped lines of a run joined with single
  spaces.
\<close>

theorem parser_keeps_content:
  "non_space (concat (map content (parse_passage_elements text))) = non_space text \<and>
   join (map (\<lambda>e. strip (content e)) (parse_passage_elements text)) =
     join (map strip (filter (\<lambda>line. strip line \<noteq> []) (split_lines text))) \<and>
   (is_poetry text \<longrightarrow>
      map content (parse_passage_elements text) =
        map (\<lambda>line. if is_section_heading line then strip line else line)
          (filter (\<lambda>line. strip line \<noteq> []) (split_lines text))) \<and>
   (\<not> is_poetry text \<longrightarrow>
      map content (parse_passage_elements text) =
        map content (prose_runs (filter (\<lambda>line. strip line \<noteq> []) (split_lines text))))"
proof -
  have nb: "non_blank = (\<lambda>line. strip line \<noteq> [])"
    by (auto simp: non_blank_def)
  have "non_space (concat (map content (parse_passage_elements text))) =
      concat (map (\<lambda>e. non_space (strip (content e))) (parse_passage_elements text))"
    by (simp add: non_space_concat non_space_strip comp_def)
  also have "\<dots> = non_space (join (map (\<lambda>e. strip (content e)) (parse_passage_elements text)))"
    by (simp add: non_space_join comp_def)
  also have "\<dots> = concat (map non_space (filter non_blank (split_lines text)))"
    by (simp add: parse_join non_space_join comp_def non_space_strip)
  also have "\<dots> = non_space text"
    by (simp add: non_space_non_blank non_space_split_lines)
  finally have "non_space (concat (map content (parse_passage_elements text))) = non_space text" .
  moreover note parse_join[of "text", unfolded nb]
  moreover have "map content (parse_passage_elements text) =
        map (\<lambda>line. if is_section_heading line then strip line else line)
          (filter (\<lambda>line. strip line \<noteq> []) (split_lines text))" if "is_poetry text"
    using contents_poetry[OF that] by (simp only: nb)
  moreover have "map content (parse_passage_elements text) =
        map content (prose_runs (filter (\<lambda>line. strip line \<noteq> []) (split_lines text)))"
    if "\<not> is_poetry text"
    using parse_prose[OF that] by (simp only: nb)
  ultimately show ?thesis
    by blast
qed

theorem parser_keeps_content_witness:
  "is_poetry ''[1] a\<newline>  [2] b'' \<and>
   map content (parse_passage_elements ''[1] a\<newline>  [2] b'') =
     map (\<lambda>line. if is_section_heading line then strip line else line)
       (filter (\<lambda>line. strip line \<noteq> []) (split_lines ''[1] a\<newline>  [2] b'')) \<and>
   map content (parse_passage_elements ''[1] a\<newline>  [2] b'') = [''[1] a'', ''  [2] b''] \<and>
   \<not> is_poetry ''T\<newline>[1] a\<newline>[2] b'' \<and>
   map content (parse_passage_elements ''T\<newline>[1] a\<newline>[2] b'') =
     map content (prose_runs (filter (\<lambda>line. strip line \<noteq> [])
       (split_lines ''T\<newline>[1] a\<newline>[2] b''))) \<and>
   map content (parse_passage_elements ''T\<newline>[1] a\<newline>[2] b'') = [''T'', ''[1] a [2] b'']"
  using parser_keeps_content[of "''[1] a\<newline>  [2] b''"] parser_keeps_content[of "''T\<newline>[1] a\<newline>[2] b''"]
    parse_eval_poetry parse_eval_prose
  by simp

end
